theory Spec2Isabelle
  imports Complex_Main
begin

unbundle bit_operations_syntax

section \<open>Host values\<close>

text \<open>
  The program computes with JavaScript numbers.  Except where it is said otherwise they
  are modelled as mathematical reals: \<open>Math.PI\<close> is \<open>pi\<close>, \<open>Math.sin\<close> is \<open>sin\<close>,
  and no rounding takes place.  Two parts of astro.js are also modelled closer to the
  machine: the loop of \<open>sunPosition\<close> on any machine (\<open>kepler_run\<close>), and
  \<open>range\<close> in double precision (\<open>range_double\<close>).  \<open>Math.trunc\<close> rounds toward zero
  and \<open>%\<close> is the truncated remainder.
\<close>

definition js_trunc :: "real \<Rightarrow> int" where
  "js_trunc x = (if 0 \<le> x then \<lfloor>x\<rfloor> else \<lceil>x\<rceil>)"

definition js_rem :: "real \<Rightarrow> real \<Rightarrow> real" where
  "js_rem x y = x - y * real_of_int (js_trunc (x / y))"

text \<open>
  What the getters of a JavaScript \<open>Date\<close> return: the local civil fields (the month
  counted from 0, as \<open>getMonth\<close> does) and the offset of \<open>getTimezoneOffset\<close>,
  in minutes.
\<close>

record civil =
  getFullYear :: int
  getMonth :: int
  getDate :: int
  getHours :: int
  getMinutes :: int
  getTimezoneOffset :: int

section \<open>astro.js\<close>

definition RADS :: real where
  "RADS = pi / 180"

definition TPI :: real where
  "TPI = pi * 2"

definition SMALL_FLOAT :: real where
  "SMALL_FLOAT = 1 / 10 ^ 12"

definition toUtcMinutes :: "civil \<Rightarrow> int" where
  "toUtcMinutes date = getTimezoneOffset date"

definition epoch2000Date :: "civil \<Rightarrow> real" where
  "epoch2000Date date =
     (let year = getFullYear date;
          month = getMonth date + 1;
          day = getDate date;
          hour = getHours date;
          minute = getMinutes date;
          j_day = 367 * year
                  - js_trunc (real_of_int (7 * (year + js_trunc (real_of_int (month + 9) / 12))) / 4)
                  + js_trunc (real_of_int (275 * month) / 9) + day;
          j2000 = real_of_int j_day - 730531.5 + real_of_int hour / 24
                  + real_of_int minute / (24 * 60)
      in j2000 + real_of_int (toUtcMinutes date) / (24 * 60))"

text \<open>\<open>range\<close> of astro.js; the unused local \<open>norm\<close> is left out.\<close>

definition range_angle :: "real \<Rightarrow> real" where
  "range_angle x =
     (let b = x / TPI;
          a = TPI * (b - sgn b * real_of_int \<lfloor>\<bar>b\<bar>\<rfloor>)
      in if a < 0 then TPI + a else a)"

definition sun :: "real \<Rightarrow> real" where
  "sun day =
     (let longitude = range_angle (280.461 * RADS + 0.9856474 * RADS * day);
          g = range_angle (357.528 * RADS + 0.9856003 * RADS * day)
      in range_angle (longitude + 1.915 * RADS * sin g + 0.02 * RADS * sin (2 * g)))"

definition sunAngle :: "civil \<Rightarrow> real" where
  "sunAngle date = sun (epoch2000Date date)"

definition season :: "civil \<Rightarrow> int" where
  "season date = js_trunc (sunAngle date / TPI * 4)"

definition sign :: "civil \<Rightarrow> int" where
  "sign date = js_trunc (sunAngle date / TPI * 12)"

definition julian :: "int \<Rightarrow> int \<Rightarrow> real \<Rightarrow> real" where
  "julian y m day =
     (let year = (if m < 3 then y - 1 else y);
          month = (if m < 3 then m + 12 else m);
          b = (if year > 1582 \<or> (year = 1582 \<and> month > 10)
                  \<or> (year = 1582 \<and> month = 10 \<and> day > 15)
               then (let a = js_trunc (real_of_int year / 100)
                     in 2 - a + js_trunc (real_of_int a / 4))
               else 0);
          c = js_trunc (365.25 * real_of_int year);
          e = js_trunc (30.6001 * real_of_int (month + 1))
      in real_of_int b + real_of_int c + real_of_int e + day + 1720994.5)"

text \<open>
  The loop of \<open>sunPosition\<close> that solves Kepler's equation:
  \<^verbatim>\<open>do { dl = e - 0.016718 * Math.sin(e) - x; e = e - dl / (1 - 0.016718 * Math.cos(e)); }
  while (Math.abs(dl) >= SMALL_FLOAT)\<close>.
  It has no counter and no error.  \<open>kepler_loop\<close> is the loop in exact arithmetic;
  that it ends there for every \<open>x\<close> and every starting value is proved below, with the
  measure \<open>kepler_rank\<close> of the residual.
\<close>

function kepler_loop :: "real \<Rightarrow> real \<Rightarrow> real" where
  "kepler_loop x e =
     (let dl = e - 0.016718 * sin e - x;
          e' = e - dl / (1 - 0.016718 * cos e)
      in if \<bar>dl\<bar> \<ge> SMALL_FLOAT then kepler_loop x e' else e')"
  by pat_completeness auto









text \<open>
  One Newton step for Kepler's equation with eccentricity \<open>k\<close>: the residual at \<open>e\<close>
  and the next iterate.  \<open>kepler_rank\<close> counts the steps the loop can still take from
  a residual of size \<open>r\<close>.
\<close>

definition newton_dl :: "real \<Rightarrow> real \<Rightarrow> real \<Rightarrow> real" where
  "newton_dl k x e = e - k * sin e - x"

definition newton_next :: "real \<Rightarrow> real \<Rightarrow> real \<Rightarrow> real" where
  "newton_next k x e = e - newton_dl k x e / (1 - k * cos e)"

definition kepler_rank :: "real \<Rightarrow> nat" where
  "kepler_rank r =
     (if r < 1 / 10 ^ 12 then 0
      else if r < 7 / 10 ^ 6 then 1
      else if r < 2 / 10 ^ 2 then 2
      else if r < 1 then 3
      else 3 + nat \<lceil>r\<rceil>)"

definition sunPosition :: "real \<Rightarrow> real" where
  "sunPosition j =
     (let n0 = 360 / 365.2422 * j;
          i0 = js_trunc (n0 / 360);
          n = n0 - real_of_int i0 * 360;
          x0 = n - 3.762863;
          x1 = (if x0 < 0 then x0 + 360 else x0);
          x = x1 * RADS;
          e = kepler_loop x x;
          v = 360 / pi * arctan (1.01686011182 * tan (e / 2));
          l0 = v + 282.596403;
          i = js_trunc (l0 / 360)
      in l0 - real_of_int i * 360)"

definition moonPosition :: "real \<Rightarrow> real \<Rightarrow> real" where
  "moonPosition j ls =
     (let ms0 = 0.985647332099 * j - 3.762863;
          ms = (if ms0 < 0 then ms0 + 360 else ms0);
          l0 = 13.176396 * j + 64.975464;
          i0 = js_trunc (l0 / 360);
          l1 = l0 - real_of_int i0 * 360;
          l2 = (if l1 < 0 then l1 + 360 else l1);
          mm0 = l2 - 0.1114041 * j - 349.383063;
          i1 = js_trunc (mm0 / 360);
          mm1 = mm0 - real_of_int i1 * 360;
          n0 = 151.950429 - 0.0529539 * j;
          i2 = js_trunc (n0 / 360);
          n = n0 - real_of_int i2 * 360;
          ev = 1.2739 * sin ((2 * (l2 - ls) - mm1) * RADS);
          sms = sin (ms * RADS);
          ae = 0.1858 * sms;
          mm = mm1 + (ev - ae - 0.37 * sms);
          ec = 6.2886 * sin (mm * RADS);
          l3 = l2 + (ev + ec - ae + 0.214 * sin (2 * mm * RADS))
      in 0.6583 * sin (2 * (l3 - ls) * RADS) + l3)"

text \<open>
  The object returned by \<open>moonPhase_\<close>, with its fields \<open>p\<close>, \<open>phase\<close> and
  \<open>percent\<close>.  \<open>& 0x7\<close> is taken on the integer value.
\<close>

record moonPhaseResult =
  res_p :: int
  res_phase :: real
  res_percent :: real

definition moonPhase_internal :: "civil \<Rightarrow> moonPhaseResult" where
  "moonPhase_internal dt =
     (let year = getFullYear dt;
          month = getMonth dt + 1;
          day = getDate dt;
          hour = getHours dt;
          minute = getMinutes dt;
          j = julian year month
                (real_of_int day + (real_of_int hour + real_of_int minute / 60) / 24 - 2444238.5);
          jUtc = j + real_of_int (toUtcMinutes dt) / (60 * 24);
          ls = sunPosition jUtc;
          lm = moonPosition jUtc ls;
          t0 = lm - ls;
          t = (if t0 < 0 then t0 + 360 else t0)
      in \<lparr> res_p = js_trunc ((t + 22.5) / 45) AND 7,
           res_phase = t,
           res_percent = (1 - cos ((lm - ls) * RADS)) / 2 \<rparr>)"

definition phase :: "civil \<Rightarrow> real" where
  "phase date = js_rem (res_phase (moonPhase_internal date)) 360"

definition percent :: "civil \<Rightarrow> real" where
  "percent date = res_percent (moonPhase_internal date)"

definition moonPhase :: "civil \<Rightarrow> int" where
  "moonPhase date = js_trunc (phase date / 90)"

section \<open>Dates as the program sees them\<close>

text \<open>
  A \<open>Date\<close> object is identified with its \<open>getTime()\<close> value, an integer number of
  milliseconds.  A \<open>world\<close> collects what the season walk asks of its surroundings:
  the host's local calendar (\<open>midnightOf d\<close> is
  \<open>new Date(d.getFullYear(), d.getMonth(), d.getDate())\<close> and \<open>nextDayOf d\<close> is
  \<open>new Date(d.getFullYear(), d.getMonth(), d.getDate() + 1)\<close>) and the three
  classifiers \<open>Astro.sign\<close>, \<open>Astro.season\<close> and \<open>Astro.moonPhase\<close> read at a
  \<open>Date\<close>.  The walk is written once for every world; \<open>astro_world\<close> below is the
  world of a host calendar together with the formulas of astro.js.
\<close>

record world =
  midnightOf :: "int \<Rightarrow> int"
  nextDayOf :: "int \<Rightarrow> int"
  signAt :: "int \<Rightarrow> int"
  seasonAt :: "int \<Rightarrow> int"
  moonPhaseAt :: "int \<Rightarrow> int"

text \<open>\<open>new Date(x)\<close> with a fractional number of milliseconds drops the fraction.\<close>

definition dateOfMs :: "real \<Rightarrow> int" where
  "dateOfMs x = js_trunc x"

text \<open>The remainder \<open>%\<close> on integers takes the sign of the dividend.\<close>

definition js_rem_int :: "int \<Rightarrow> int \<Rightarrow> int" where
  "js_rem_int a b = sgn a * (\<bar>a\<bar> mod \<bar>b\<bar>)"

definition endOfDay :: "world \<Rightarrow> int \<Rightarrow> int" where
  "endOfDay w day = midnightOf w day + 86400000"

section \<open>calendarDate.js\<close>

record place =
  px :: real
  py :: real

text \<open>
  The fields of a \<open>CalendarDate\<close> that the layout and the classification use.  The
  display label (\<open>mDate\<close>, \<open>mBold\<close>, \<open>mIsSunday\<close>) is left out.  A \<open>null\<close> fraction
  is \<open>None\<close>.
\<close>

record calendarDate =
  today :: int
  mTropicalPhase :: int
  mLunarPhase :: int
  mSeason :: int
  mSignStart :: int
  mSplitFraction :: "real option"
  mNewMoonWeek :: bool
  mPlace :: place
  mIsPhaseStart :: bool
  mIsPhaseEnd :: bool
  mPhaseFraction :: "real option"

text \<open>
  The loop shared by \<open>_findPhaseFraction\<close> and \<open>_findSplitFraction\<close>: \<open>n\<close> rounds
  of halving the bracket, the test \<open>p\<close> deciding which half is kept.
\<close>

fun bisect :: "(real \<Rightarrow> bool) \<Rightarrow> nat \<Rightarrow> real \<Rightarrow> real \<Rightarrow> real \<times> real" where
  "bisect p 0 lo hi = (lo, hi)"
| "bisect p (Suc n) lo hi =
     (let mid = (lo + hi) / 2
      in if p mid then bisect p n mid hi else bisect p n lo mid)"

definition bisectFraction :: "(real \<Rightarrow> bool) \<Rightarrow> real" where
  "bisectFraction p = (case bisect p 20 0 1 of (lo, hi) \<Rightarrow> (lo + hi) / 2)"

definition phaseTest :: "world \<Rightarrow> int \<Rightarrow> int \<Rightarrow> real \<Rightarrow> bool" where
  "phaseTest w startMs oldPhase mid =
     (moonPhaseAt w (dateOfMs (real_of_int startMs + mid * 86400000)) = oldPhase)"

definition splitTest :: "world \<Rightarrow> int \<Rightarrow> int \<Rightarrow> real \<Rightarrow> bool" where
  "splitTest w startMs signStart mid =
     (signAt w (dateOfMs (real_of_int startMs + mid * 86400000)) = signStart)"

definition findPhaseFraction :: "world \<Rightarrow> calendarDate \<Rightarrow> real" where
  "findPhaseFraction w this =
     (let startMs = today this;
          oldPhase = js_rem_int (mLunarPhase this + 3) 4
      in bisectFraction (phaseTest w startMs oldPhase))"

definition findSplitFraction :: "world \<Rightarrow> int \<Rightarrow> int \<Rightarrow> real" where
  "findSplitFraction w startMs signStart = bisectFraction (splitTest w startMs signStart)"

definition newMoonWeek :: "world \<Rightarrow> int \<Rightarrow> int \<Rightarrow> int \<Rightarrow> bool" where
  "newMoonWeek w todayMs seasonEnd lunarPhase =
     (let sixDaysAgo = todayMs - 6 * 86400000
      in if seasonEnd = seasonAt w sixDaysAgo
         then (if lunarPhase = 0 \<and> moonPhaseAt w sixDaysAgo = 3 then True else False)
         else False)"

text \<open>The constructor \<open>new CalendarDate(date)\<close>.\<close>

definition CalendarDate :: "world \<Rightarrow> int \<Rightarrow> calendarDate" where
  "CalendarDate w date =
     (let t = midnightOf w date;
          tomorrow = endOfDay w t;
          tropicalPhase = signAt w tomorrow;
          lunarPhase = moonPhaseAt w tomorrow;
          seasonEnd = seasonAt w tomorrow;
          signStart = signAt w t
      in \<lparr> today = t,
           mTropicalPhase = tropicalPhase,
           mLunarPhase = lunarPhase,
           mSeason = seasonEnd,
           mSignStart = signStart,
           mSplitFraction =
             (if signStart \<noteq> tropicalPhase then Some (findSplitFraction w t signStart)
              else None),
           mNewMoonWeek = newMoonWeek w t seasonEnd lunarPhase,
           mPlace = \<lparr> px = 0, py = 0 \<rparr>,
           mIsPhaseStart = False,
           mIsPhaseEnd = False,
           mPhaseFraction = None \<rparr>)"

definition leftPoint :: "calendarDate \<Rightarrow> real" where
  "leftPoint this = px (mPlace this) - 1 / 6"

definition rightPoint :: "calendarDate \<Rightarrow> real" where
  "rightPoint this = px (mPlace this) + 1 / 2"

definition topPoint :: "calendarDate \<Rightarrow> real" where
  "topPoint this = py (mPlace this)"

definition bottomPoint :: "calendarDate \<Rightarrow> real" where
  "bottomPoint this = py (mPlace this) + 1 / 2"

text \<open>
  \<open>next()\<close> builds the following day and places it; on a change of lunar quarter it
  also writes \<open>mIsPhaseEnd\<close> of the object it is called on.  The function returns
  both objects: the receiver as \<open>next()\<close> leaves it, and the new day.
\<close>

definition next_date :: "world \<Rightarrow> calendarDate \<Rightarrow> calendarDate \<times> calendarDate" where
  "next_date w this =
     (let nxt = CalendarDate w (nextDayOf w (today this))
      in if mLunarPhase this = mLunarPhase nxt
         then (this,
               nxt\<lparr> mPlace := \<lparr> px = px (mPlace this) + 1 / 2, py = py (mPlace this) \<rparr> \<rparr>)
         else (this\<lparr> mIsPhaseEnd := True \<rparr>,
               nxt\<lparr> mIsPhaseStart := True,
                    mPhaseFraction := Some (findPhaseFraction w (nxt\<lparr> mIsPhaseStart := True \<rparr>)),
                    mPlace := \<lparr> px = px (mPlace this) - 19 / 6,
                                py = py (mPlace this) + 1 / 2 \<rparr> \<rparr>))"

section \<open>app.js\<close>

fun findFirst_loop :: "world \<Rightarrow> int \<Rightarrow> int \<Rightarrow> nat \<Rightarrow> int \<Rightarrow> int" where
  "findFirst_loop w date targetSeason 0 d = midnightOf w date"
| "findFirst_loop w date targetSeason (Suc n) d =
     (let d' = d - 86400000
      in if seasonAt w (endOfDay w d') \<noteq> targetSeason then d' + 86400000
         else findFirst_loop w date targetSeason n d')"

definition findFirstInSeason :: "world \<Rightarrow> int \<Rightarrow> int" where
  "findFirstInSeason w date =
     (let d = midnightOf w date;
          targetSeason = seasonAt w (endOfDay w d)
      in findFirst_loop w date targetSeason 200 d)"

text \<open>
  The bounding box starts as \<open>{top: Infinity, left: Infinity, bottom: -Infinity,
  right: -Infinity}\<close>, written \<open>None\<close>; \<open>Math.min\<close> and \<open>Math.max\<close> against it
  return the other argument.
\<close>

record box =
  top :: real
  left :: real
  bottom :: real
  right :: real

definition extendBounds :: "box option \<Rightarrow> calendarDate \<Rightarrow> box option" where
  "extendBounds bounds current =
     (case bounds of
        None \<Rightarrow> Some \<lparr> top = topPoint current, left = leftPoint current,
                       bottom = bottomPoint current, right = rightPoint current \<rparr>
      | Some b \<Rightarrow> Some \<lparr> top = min (top b) (topPoint current),
                         left = min (left b) (leftPoint current),
                         bottom = max (bottom b) (bottomPoint current),
                         right = max (right b) (rightPoint current) \<rparr>)"

record seasonLayout =
  seasonCalendar :: "calendarDate list"
  bounds :: "box option"

text \<open>
  The loop of \<open>constructSeason\<close>.  \<open>seasonCalendar.push(current)\<close> stores the object
  itself, so what \<open>current.next()\<close> then writes into it is seen through the list:
  the list receives the receiver as \<open>next()\<close> returns it.
\<close>

fun season_loop :: "world \<Rightarrow> int \<Rightarrow> nat \<Rightarrow> calendarDate \<Rightarrow> seasonLayout \<Rightarrow> seasonLayout" where
  "season_loop w targetSeason 0 current acc = acc"
| "season_loop w targetSeason (Suc n) current acc =
     (if mSeason current \<noteq> targetSeason then acc
      else case next_date w current of
             (this, nxt) \<Rightarrow>
               season_loop w targetSeason n nxt
                 \<lparr> seasonCalendar = seasonCalendar acc @ [this],
                   bounds = extendBounds (bounds acc) current \<rparr>)"

definition constructSeason :: "world \<Rightarrow> int \<Rightarrow> seasonLayout" where
  "constructSeason w date =
     (let first = findFirstInSeason w date;
          current = (CalendarDate w first)\<lparr> mPlace := \<lparr> px = 0, py = 0 \<rparr> \<rparr>;
          targetSeason = mSeason current
      in season_loop w targetSeason 200 current \<lparr> seasonCalendar = [], bounds = None \<rparr>)"

section \<open>The host calendar\<close>

text \<open>
  A host gives the local fields of a \<open>Date\<close> (\<open>localFields\<close>, the getters) and
  builds the \<open>Date\<close> of a local civil day (\<open>localDate y m d\<close> is
  \<open>new Date(y, m, d).getTime()\<close>).  \<open>astro_world h\<close> is the world of the program on
  the host \<open>h\<close>: the classifiers are those of astro.js.
\<close>

record host =
  localFields :: "int \<Rightarrow> civil"
  localDate :: "int \<Rightarrow> int \<Rightarrow> int \<Rightarrow> int"

definition astro_world :: "host \<Rightarrow> world" where
  "astro_world h =
     \<lparr> midnightOf = (\<lambda>t. let d = localFields h t
                         in localDate h (getFullYear d) (getMonth d) (getDate d)),
       nextDayOf = (\<lambda>t. let d = localFields h t
                        in localDate h (getFullYear d) (getMonth d) (getDate d + 1)),
       signAt = (\<lambda>t. sign (localFields h t)),
       seasonAt = (\<lambda>t. season (localFields h t)),
       moonPhaseAt = (\<lambda>t. moonPhase (localFields h t)) \<rparr>"

text \<open>
  A host in the UTC time zone: the civil date of a day number counted from
  1970-01-01 in the proleptic Gregorian calendar, and back; the offset is 0.
  \<open>new Date(y, m, d)\<close> accepts a day of the month past the end of the month, and
  reads a year from 0 to 99 as \<open>1900 + y\<close>.
\<close>

definition civil_from_days :: "int \<Rightarrow> int \<times> int \<times> int" where
  "civil_from_days z0 =
     (let z = z0 + 719468;
          era = z div 146097;
          doe = z - era * 146097;
          yoe = (doe - doe div 1460 + doe div 36524 - doe div 146096) div 365;
          doy = doe - (365 * yoe + yoe div 4 - yoe div 100);
          mp = (5 * doy + 2) div 153;
          d = doy - (153 * mp + 2) div 5 + 1;
          m = (if mp < 10 then mp + 3 else mp - 9);
          y = yoe + era * 400 + (if m \<le> 2 then 1 else 0)
      in (y, m, d))"

definition days_from_civil :: "int \<Rightarrow> int \<Rightarrow> int \<Rightarrow> int" where
  "days_from_civil y0 m d =
     (let y = (if m \<le> 2 then y0 - 1 else y0);
          era = y div 400;
          yoe = y - era * 400;
          doy = (153 * (if m > 2 then m - 3 else m + 9) + 2) div 5 + d - 1;
          doe = yoe * 365 + yoe div 4 - yoe div 100 + doy
      in era * 146097 + doe - 719468)"

definition utc :: host where
  "utc =
     \<lparr> localFields = (\<lambda>t. case civil_from_days (t div 86400000) of
                          (y, m, d) \<Rightarrow>
                            \<lparr> getFullYear = y, getMonth = m - 1, getDate = d,
                              getHours = (t mod 86400000) div 3600000,
                              getMinutes = ((t mod 86400000) mod 3600000) div 60000,
                              getTimezoneOffset = 0 \<rparr>),
       localDate = (\<lambda>y m d. (days_from_civil
                                  ((if 0 \<le> y \<and> y \<le> 99 then 1900 + y else y) + m div 12)
                                  (m mod 12 + 1) 1 + (d - 1))
                               * 86400000) \<rparr>"




text \<open>The civil instant 2053-03-19 22:00 at a UTC offset of 0 minutes.\<close>

definition equinox_eve :: civil where
  "equinox_eve = \<lparr> getFullYear = 2053, getMonth = 2, getDate = 19, getHours = 22,
                    getMinutes = 0, getTimezoneOffset = 0 \<rparr>"



section \<open>The longitudes without their reductions\<close>








section \<open>Instants in the Gregorian calendar\<close>




section \<open>Double precision\<close>

text \<open>
  A double is 0 or a real with at most 53 significant bits.  \<open>double x\<close> is the double
  nearest to \<open>x\<close>, the one with an even last bit when two are equally near: what every
  arithmetic operation of the language returns for its exact result \<open>x\<close>.  The exponent
  is not limited here (no overflow and no subnormal numbers), which plays no role at
  the magnitudes used below.  \<open>Math_PI\<close> is \<open>Math.PI\<close>, the double nearest to \<open>pi\<close>,
  and \<open>TPI_double\<close> the constant \<open>TPI = 2 * Math.PI\<close>.

  \<open>range_double\<close> is \<open>range\<close> of astro.js with each operation rounded: the division
  \<open>x / TPI\<close>, the subtraction, the product with \<open>TPI\<close> and the sum \<open>TPI + a\<close>.
  \<open>Math.sign(b) * Math.floor(Math.abs(b))\<close> is a whole number times 1, 0 or \<open>- 1\<close>
  and is exact.
\<close>


definition round_even :: "real \<Rightarrow> int" where
  "round_even x =
     (let n = \<lfloor>x\<rfloor>;
          f = x - real_of_int n
      in if f < 1 / 2 then n
         else if 1 / 2 < f then n + 1
         else if even n then n else n + 1)"

definition double :: "real \<Rightarrow> real" where
  "double x =
     (if x = 0 then 0
      else let u = 2 powr real_of_int (\<lfloor>log 2 \<bar>x\<bar>\<rfloor> - 52)
           in real_of_int (round_even (x / u)) * u)"

definition Math_PI :: real where
  "Math_PI = 884279719003555 / 2 ^ 48"

definition TPI_double :: real where
  "TPI_double = double (Math_PI * 2)"

definition range_double :: "real \<Rightarrow> real" where
  "range_double x =
     (let b = double (x / TPI_double);
          a = double (TPI_double * double (b - sgn b * real_of_int \<lfloor>\<bar>b\<bar>\<rfloor>))
      in if a < 0 then double (TPI_double + a) else a)"

section \<open>Properties of the walk, and worlds to run it in\<close>

text \<open>
  \<open>linked a b\<close> is what holds between a day \<open>a\<close> of a season and the day \<open>b\<close> placed
  after it: either the lunar quarter is the same, \<open>b\<close> sits half a unit to the right on
  the same row and neither phase flag is set, or the quarter differs, \<open>b\<close> sits half a
  unit lower and \<open>19 / 6\<close> to the left, and both \<open>mIsPhaseEnd a\<close> and
  \<open>mIsPhaseStart b\<close> are set.
\<close>

definition linked :: "calendarDate \<Rightarrow> calendarDate \<Rightarrow> bool" where
  "linked a b =
     ((mLunarPhase b = mLunarPhase a \<and> py (mPlace b) = py (mPlace a)
         \<and> px (mPlace b) = px (mPlace a) + 1 / 2
         \<and> \<not> mIsPhaseEnd a \<and> \<not> mIsPhaseStart b)
      \<or> (mLunarPhase b \<noteq> mLunarPhase a \<and> py (mPlace b) = py (mPlace a) + 1 / 2
         \<and> px (mPlace b) = px (mPlace a) - 19 / 6
         \<and> mIsPhaseEnd a \<and> mIsPhaseStart b))"

text \<open>\<open>walk w c k\<close> is the day reached from \<open>c\<close> by \<open>k\<close> calls of \<open>next()\<close>.\<close>

definition walk :: "world \<Rightarrow> calendarDate \<Rightarrow> nat \<Rightarrow> calendarDate" where
  "walk w c k = ((\<lambda>c. snd (next_date w c)) ^^ k) c"

text \<open>
  A clockwork almanac on a host that keeps UTC: days of 86 400 000 ms starting at
  multiples of that length, a year of twelve signs of 30 days (a sign begins at 18:00),
  seasons of three signs, and a lunar month of four quarters of 7 days (a quarter
  begins at noon).  Spring and Aries begin at 18:00 of day \<open>- 1\<close>; the first quarter
  begins at noon of day 0.
\<close>

definition clockwork :: world where
  "clockwork =
     \<lparr> midnightOf = (\<lambda>t. t - t mod 86400000),
       nextDayOf = (\<lambda>t. t - t mod 86400000 + 86400000),
       signAt = (\<lambda>t. ((t + 21600000) div 2592000000) mod 12),
       seasonAt = (\<lambda>t. ((t + 21600000) div 7776000000) mod 4),
       moonPhaseAt = (\<lambda>t. ((t + 561600000) div 604800000) mod 4) \<rparr>"

text \<open>The first day of the clockwork spring, as \<open>constructSeason\<close> places it.\<close>

definition spring0 :: calendarDate where
  "spring0 = (CalendarDate clockwork (- 86400000)) \<lparr> mPlace := \<lparr> px = 0, py = 0 \<rparr> \<rparr>"

text \<open>The same host with a season classifier that answers spring at every instant.\<close>

definition stuck :: world where
  "stuck = clockwork \<lparr> seasonAt := (\<lambda>t. 0) \<rparr>"

text \<open>
  A host whose clocks are set back by one hour during day 1, so that day 1 lasts
  25 hours: local midnights are at 0, at 86 400 000, and from then on at
  176 400 000 plus multiples of a day.  The first lunar quarter begins at
  174 600 000, half an hour after \<open>endOfDay\<close> of day 1 and half an hour before the
  midnight that opens day 2.
\<close>

definition fallback :: world where
  "fallback =
     \<lparr> midnightOf = (\<lambda>t. if t < 86400000 then t - t mod 86400000
                         else if t < 176400000 then 86400000
                         else t - 3600000 - (t - 3600000) mod 86400000 + 3600000),
       nextDayOf = (\<lambda>t. if t < 86400000 then t - t mod 86400000 + 86400000
                        else if t < 176400000 then 176400000
                        else t - 3600000 - (t - 3600000) mod 86400000 + 90000000),
       signAt = (\<lambda>t. ((t + 21600000) div 2592000000) mod 12),
       seasonAt = (\<lambda>t. ((t + 21600000) div 7776000000) mod 4),
       moonPhaseAt = (\<lambda>t. ((t + 430200000) div 604800000) mod 4) \<rparr>"

section \<open>Angle normalisation\<close>

lemma TPI_pos: "0 < TPI"
  by (simp add: TPI_def)

lemma range_angle_frac: "range_angle x = TPI * frac (x / TPI)"
proof -
  define b where "b = x / TPI"
  have pos: "0 < TPI" by (rule TPI_pos)
  consider (zero) "b = 0" | (plus) "0 < b" | (minus) "b < 0" by linarith
  then have "(let a = TPI * (b - sgn b * real_of_int \<lfloor>\<bar>b\<bar>\<rfloor>)
              in if a < 0 then TPI + a else a) = TPI * frac b"
  proof cases
    case zero
    then show ?thesis by simp
  next
    case plus
    have "0 \<le> frac b" by simp
    then have "0 \<le> TPI * frac b"
      using pos by (intro mult_nonneg_nonneg) simp_all
    then have "\<not> TPI * frac b < 0"
      by linarith
    with plus show ?thesis
      by (simp add: frac_def Let_def)
  next
    case minus
    have sg: "sgn b = - 1" using minus by simp
    have ab: "\<bar>b\<bar> = - b" using minus by simp
    have a_eq: "b - sgn b * real_of_int \<lfloor>\<bar>b\<bar>\<rfloor> = - frac (- b)"
      by (simp add: sg ab frac_def)
    have "(if TPI * (- frac (- b)) < 0 then TPI + TPI * (- frac (- b))
           else TPI * (- frac (- b))) = TPI * frac b"
    proof (cases "b \<in> \<int>")
      case True
      then have f1: "frac (- b) = 0" and f2: "frac b = 0" by simp_all
      show ?thesis unfolding f1 f2 by simp
    next
      case False
      then have nz: "frac (- b) = 1 - frac b"
        by (simp add: frac_neg)
      have "frac b < 1" by (rule frac_lt_1)
      then have "0 < TPI * (1 - frac b)"
        using pos by simp
      then show ?thesis
        by (simp add: nz algebra_simps)
    qed
    then show ?thesis
      unfolding Let_def a_eq .
  qed
  then show ?thesis
    unfolding range_angle_def b_def Let_def .
qed

lemma range_angle_bounds: "0 \<le> range_angle x \<and> range_angle x < TPI"
proof -
  have "0 \<le> frac (x / TPI)" "frac (x / TPI) < 1"
    by (simp_all add: frac_lt_1)
  then show ?thesis
    using TPI_pos by (simp add: range_angle_frac)
qed

lemma range_angle_periodic: "range_angle (x + TPI * real_of_int k) = range_angle x"
proof -
  have "(x + TPI * real_of_int k) / TPI = x / TPI + real_of_int k"
    using TPI_pos by (simp add: field_simps)
  then show ?thesis
    by (simp add: range_angle_frac frac_def)
qed

text \<open>
  C9.  At the civil instant 2000-01-01 12:00 with a UTC offset of 0 minutes,
  \<open>epoch2000Date\<close> returns exactly 0.
\<close>

theorem epoch2000Date_J2000:
  "epoch2000Date \<lparr>getFullYear = 2000, getMonth = 0, getDate = 1, getHours = 12,
                   getMinutes = 0, getTimezoneOffset = 0\<rparr> = 0"
  by (simp add: epoch2000Date_def toUtcMinutes_def js_trunc_def Let_def)

text \<open>
  In exact arithmetic \<open>range\<close> maps every real angle into the interval from 0
  (included) to \<open>2 * pi\<close> (excluded), sends \<open>- pi / 2\<close> to \<open>3 * pi / 2\<close>, and is
  periodic: adding any integer number of full turns does not change its value.
\<close>

lemma range_angle_exact:
  "0 \<le> range_angle x \<and> range_angle x < 2 * pi
   \<and> range_angle (- pi / 2) = 3 * pi / 2
   \<and> range_angle (x + 2 * pi * real_of_int k) = range_angle x"
proof -
  have b: "0 \<le> range_angle x \<and> range_angle x < 2 * pi"
    using range_angle_bounds [of x] by (simp add: TPI_def)
  have "- pi / 2 / TPI = - (1 / 4)"
    by (simp add: TPI_def)
  then have c: "range_angle (- pi / 2) = 3 * pi / 2"
    by (simp add: range_angle_def Let_def TPI_def)
  have p: "range_angle (x + 2 * pi * real_of_int k) = range_angle x"
    using range_angle_periodic [of x k] by (simp add: TPI_def mult.commute)
  from b c p show ?thesis by blast
qed

section \<open>Evaluating the worlds\<close>

lemma clockwork_simps:
  "midnightOf clockwork t = t - t mod 86400000"
  "nextDayOf clockwork t = t - t mod 86400000 + 86400000"
  "signAt clockwork t = ((t + 21600000) div 2592000000) mod 12"
  "seasonAt clockwork t = ((t + 21600000) div 7776000000) mod 4"
  "moonPhaseAt clockwork t = ((t + 561600000) div 604800000) mod 4"
  by (simp_all add: clockwork_def)

lemma stuck_simps:
  "midnightOf stuck t = t - t mod 86400000"
  "nextDayOf stuck t = t - t mod 86400000 + 86400000"
  "seasonAt stuck t = 0"
  by (simp_all add: stuck_def clockwork_def)

lemma fallback_simps:
  "midnightOf fallback t = (if t < 86400000 then t - t mod 86400000
                         else if t < 176400000 then 86400000
                         else t - 3600000 - (t - 3600000) mod 86400000 + 3600000)"
  "nextDayOf fallback t = (if t < 86400000 then t - t mod 86400000 + 86400000
                        else if t < 176400000 then 176400000
                        else t - 3600000 - (t - 3600000) mod 86400000 + 90000000)"
  "moonPhaseAt fallback t = ((t + 430200000) div 604800000) mod 4"
  by (simp_all add: fallback_def)

lemma js_trunc_mono: "x \<le> y \<Longrightarrow> js_trunc x \<le> js_trunc y"
  unfolding js_trunc_def
  by (smt (verit) ceiling_mono floor_mono floor_le_ceiling ceiling_le_zero zero_le_floor)

lemma js_trunc_of_int [simp]: "js_trunc (real_of_int k) = k"
  by (simp add: js_trunc_def)

section \<open>The constructor and \<open>next()\<close>\<close>

lemma CalendarDate_fields:
  "today (CalendarDate w d) = midnightOf w d"
  "mLunarPhase (CalendarDate w d) = moonPhaseAt w (endOfDay w (midnightOf w d))"
  "mSeason (CalendarDate w d) = seasonAt w (endOfDay w (midnightOf w d))"
  "mTropicalPhase (CalendarDate w d) = signAt w (endOfDay w (midnightOf w d))"
  "mSignStart (CalendarDate w d) = signAt w (midnightOf w d)"
  "mNewMoonWeek (CalendarDate w d) =
     newMoonWeek w (midnightOf w d) (seasonAt w (endOfDay w (midnightOf w d)))
       (moonPhaseAt w (endOfDay w (midnightOf w d)))"
  "mPlace (CalendarDate w d) = \<lparr> px = 0, py = 0 \<rparr>"
  by (simp_all add: CalendarDate_def Let_def)

lemma next_date_snd:
  "today (snd (next_date w c)) = midnightOf w (nextDayOf w (today c))"
  "mLunarPhase (snd (next_date w c)) = mLunarPhase (CalendarDate w (nextDayOf w (today c)))"
  "mSeason (snd (next_date w c)) = mSeason (CalendarDate w (nextDayOf w (today c)))"
  by (simp_all add: next_date_def Let_def CalendarDate_fields)

lemma next_date_fst:
  "today (fst (next_date w c)) = today c"
  "mLunarPhase (fst (next_date w c)) = mLunarPhase c"
  "mSeason (fst (next_date w c)) = mSeason c"
  "mPlace (fst (next_date w c)) = mPlace c"
  by (simp_all add: next_date_def Let_def)

lemma CalendarDate_flags:
  "\<not> mIsPhaseStart (CalendarDate w d) \<and> \<not> mIsPhaseEnd (CalendarDate w d)"
  by (simp add: CalendarDate_def Let_def)

lemma next_date_linked:
  assumes "next_date w c = (a, b)" and "\<not> mIsPhaseEnd c"
  shows "linked a b \<and> \<not> mIsPhaseEnd b
         \<and> mLunarPhase a = mLunarPhase c \<and> mPlace a = mPlace c
         \<and> mIsPhaseStart a = mIsPhaseStart c \<and> mSeason a = mSeason c"
  using assms CalendarDate_flags [of w "nextDayOf w (today c)"]
  by (auto simp: next_date_def Let_def linked_def split: if_splits)

lemma linked_cong:
  "mLunarPhase b' = mLunarPhase b \<Longrightarrow> mPlace b' = mPlace b \<Longrightarrow>
   mIsPhaseStart b' = mIsPhaseStart b \<Longrightarrow> linked a b \<Longrightarrow> linked a b'"
  by (simp add: linked_def)

section \<open>The new-moon week\<close>

text \<open>
  C2, as the code has it.  \<open>mNewMoonWeek\<close> of a day is true exactly when the day's
  lunar quarter is 0 and, at the instant 6 * 86 400 000 ms before the day's local
  midnight itself (not at \<open>endOfDay\<close> of that instant), the season is the day's
  season and the lunar quarter is 3.
\<close>

theorem newMoonWeek_six_days_ago:
  "mNewMoonWeek (CalendarDate w date) =
     (mLunarPhase (CalendarDate w date) = 0
      \<and> seasonAt w (today (CalendarDate w date) - 6 * 86400000) = mSeason (CalendarDate w date)
      \<and> moonPhaseAt w (today (CalendarDate w date) - 6 * 86400000) = 3)"
  by (auto simp: CalendarDate_fields newMoonWeek_def Let_def)

text \<open>
  C2 as claimed fails on day 27 of the clockwork almanac.  The new moon falls at noon of
  day 21: at the midnight opening day 21 the quarter is still 3, so the flag of day 27
  is set; but the record of day 21, read at the end of that day, has quarter 0.
\<close>

theorem newMoonWeek_counterexample:
  "\<not> (mNewMoonWeek (CalendarDate clockwork 2332800000) =
        (mLunarPhase (CalendarDate clockwork 2332800000) = 0
         \<and> mLunarPhase (CalendarDate clockwork (2332800000 - 6 * 86400000)) = 3
         \<and> mSeason (CalendarDate clockwork (2332800000 - 6 * 86400000))
             = mSeason (CalendarDate clockwork 2332800000)))"
  by (simp add: CalendarDate_fields newMoonWeek_def Let_def endOfDay_def clockwork_simps)

section \<open>Bisection\<close>

lemma bisect_width:
  "bisect p n lo hi = (lo', hi') \<Longrightarrow> hi' - lo' = (hi - lo) / 2 ^ n"
proof (induction n arbitrary: lo hi)
  case 0
  then show ?case by simp
next
  case (Suc n)
  show ?case
  proof (cases "p ((lo + hi) / 2)")
    case True
    with Suc.prems have "bisect p n ((lo + hi) / 2) hi = (lo', hi')"
      by (simp add: Let_def)
    from Suc.IH [OF this] show ?thesis by (simp add: field_simps)
  next
    case False
    with Suc.prems have "bisect p n lo ((lo + hi) / 2) = (lo', hi')"
      by (simp add: Let_def)
    from Suc.IH [OF this] show ?thesis by (simp add: field_simps)
  qed
qed

lemma bisect_ends:
  "bisect p n lo hi = (lo', hi') \<Longrightarrow> (lo' = lo \<or> p lo') \<and> (hi' = hi \<or> \<not> p hi')"
proof (induction n arbitrary: lo hi)
  case 0
  then show ?case by simp
next
  case (Suc n)
  define mid where "mid = (lo + hi) / 2"
  show ?case
  proof (cases "p mid")
    case True
    with Suc.prems have "bisect p n mid hi = (lo', hi')"
      by (simp add: Let_def mid_def)
    from Suc.IH [OF this] have "(lo' = mid \<or> p lo') \<and> (hi' = hi \<or> \<not> p hi')" .
    with True show ?thesis by blast
  next
    case False
    with Suc.prems have "bisect p n lo mid = (lo', hi')"
      by (simp add: Let_def mid_def)
    from Suc.IH [OF this] have "(lo' = lo \<or> p lo') \<and> (hi' = mid \<or> \<not> p hi')" .
    with False show ?thesis by blast
  qed
qed

lemma bisect_inside:
  "lo \<le> hi \<Longrightarrow> bisect p n lo hi = (lo', hi') \<Longrightarrow> lo \<le> lo' \<and> lo' \<le> hi' \<and> hi' \<le> hi"
proof (induction n arbitrary: lo hi)
  case 0
  then show ?case by simp
next
  case (Suc n)
  define mid where "mid = (lo + hi) / 2"
  have m: "lo \<le> mid" "mid \<le> hi"
    using Suc.prems(1) by (simp_all add: mid_def)
  show ?case
  proof (cases "p mid")
    case True
    with Suc.prems have "bisect p n mid hi = (lo', hi')"
      by (simp add: Let_def mid_def)
    from Suc.IH [OF m(2) this] m show ?thesis by linarith
  next
    case False
    with Suc.prems have "bisect p n lo mid = (lo', hi')"
      by (simp add: Let_def mid_def)
    from Suc.IH [OF m(1) this] m show ?thesis by linarith
  qed
qed

lemma bisectFraction_ends:
  assumes "bisect p 20 0 1 = (lo, hi)"
  shows "bisectFraction p = lo + 1 / 2 ^ 21" and "bisectFraction p = hi - 1 / 2 ^ 21"
    and "lo = 0 \<or> p lo" and "hi = 1 \<or> \<not> p hi"
proof -
  have w: "hi - lo = 1 / 2 ^ 20"
    using bisect_width [OF assms] by simp
  have f: "bisectFraction p = (lo + hi) / 2"
    by (simp add: bisectFraction_def assms)
  show "bisectFraction p = lo + 1 / 2 ^ 21" using w f by simp
  show "bisectFraction p = hi - 1 / 2 ^ 21" using w f by simp
  show "lo = 0 \<or> p lo" "hi = 1 \<or> \<not> p hi"
    using bisect_ends [OF assms] by simp_all
qed

text \<open>
  C6, as the code has it.  \<open>_findSplitFraction\<close> and \<open>_findPhaseFraction\<close> halve the
  bracket from 0 to 1 exactly 20 times and return the midpoint \<open>f\<close> of the final
  bracket, whose ends are \<open>f - 1 / 2 ^ 21\<close> and \<open>f + 1 / 2 ^ 21\<close>.  If the test holds at
  0 and fails at 1, it holds at the lower end and fails at the upper end; if moreover
  the test, once false, stays false (between one day before and one day after the
  day), it holds at \<open>f - 1 / 2 ^ 20\<close> and fails at \<open>f + 1 / 2 ^ 20\<close>.
\<close>

theorem bisectFraction_bracket:
  assumes "p 0" and "\<not> p 1"
  shows "snd (bisect p 20 0 1) - fst (bisect p 20 0 1) = 1 / 2 ^ 20
         \<and> bisectFraction p = (fst (bisect p 20 0 1) + snd (bisect p 20 0 1)) / 2
         \<and> p (bisectFraction p - 1 / 2 ^ 21) \<and> \<not> p (bisectFraction p + 1 / 2 ^ 21)
         \<and> ((\<forall>s t. s \<le> t \<and> t \<le> 2 \<and> - 1 \<le> s \<and> p t \<longrightarrow> p s)
              \<longrightarrow> p (bisectFraction p - 1 / 2 ^ 20) \<and> \<not> p (bisectFraction p + 1 / 2 ^ 20))"
proof -
  obtain lo hi where b: "bisect p 20 0 1 = (lo, hi)"
    by (cases "bisect p 20 0 1")
  note e = bisectFraction_ends [OF b]
  have lo: "p lo" using e(3) assms(1) by auto
  have hi: "\<not> p hi" using e(4) assms(2) by auto
  have l1: "bisectFraction p - 1 / 2 ^ 21 = lo" using e(1) by simp
  have h1: "bisectFraction p + 1 / 2 ^ 21 = hi" using e(2) by simp
  have rng: "0 \<le> lo \<and> lo \<le> hi \<and> hi \<le> 1"
    using bisect_inside [OF _ b] by simp
  have far: "p (lo - 1 / 2 ^ 21) \<and> \<not> p (hi + 1 / 2 ^ 21)"
    if mono: "\<forall>s t. s \<le> t \<and> t \<le> 2 \<and> - 1 \<le> s \<and> p t \<longrightarrow> p s"
  proof
    have "lo - 1 / 2 ^ 21 \<le> lo \<and> lo \<le> 2 \<and> - 1 \<le> lo - 1 / 2 ^ 21 \<and> p lo"
      using rng lo by simp
    with mono show "p (lo - 1 / 2 ^ 21)" by blast
    have "hi \<le> hi + 1 / 2 ^ 21 \<and> hi + 1 / 2 ^ 21 \<le> 2 \<and> - 1 \<le> hi"
      using rng by simp
    with mono hi show "\<not> p (hi + 1 / 2 ^ 21)" by blast
  qed
  have l2: "bisectFraction p - 1 / 2 ^ 20 = lo - 1 / 2 ^ 21" using e(1) by simp
  have h2: "bisectFraction p + 1 / 2 ^ 20 = hi + 1 / 2 ^ 21" using e(2) by simp
  have w: "snd (bisect p 20 0 1) - fst (bisect p 20 0 1) = 1 / 2 ^ 20"
    using bisect_width [OF b] by (simp add: b)
  have m: "bisectFraction p = (fst (bisect p 20 0 1) + snd (bisect p 20 0 1)) / 2"
    by (simp add: bisectFraction_def b)
  show ?thesis
    unfolding l1 h1 l2 h2 using lo hi far w m by blast
qed

lemma clockwork_split_test:
  assumes "- 1 \<le> t" "t \<le> 2"
  shows "splitTest clockwork (- 86400000) 11 t
           \<longleftrightarrow> dateOfMs (- 86400000 + t * 86400000) < - 21600000"
proof -
  define m where "m = dateOfMs (- 86400000 + t * 86400000)"
  have "js_trunc (real_of_int (- 172800000)) \<le> m"
    unfolding m_def dateOfMs_def using assms by (intro js_trunc_mono) simp
  moreover have "m \<le> js_trunc (real_of_int 86400000)"
    unfolding m_def dateOfMs_def using assms by (intro js_trunc_mono) simp
  ultimately have b: "- 172800000 \<le> m" "m \<le> 86400000"
    unfolding js_trunc_of_int by simp_all
  show ?thesis
  proof (cases "m < - 21600000")
    case True
    have "(m + 21600000) div 2592000000 = - 1"
      by (rule int_div_pos_eq [where r = "m + 21600000 + 2592000000"]) (use b True in simp_all)
    with True show ?thesis
      by (simp add: splitTest_def clockwork_simps m_def)
  next
    case False
    have "(m + 21600000) div 2592000000 = 0"
      by (rule int_div_pos_eq [where r = "m + 21600000"]) (use b False in simp_all)
    with False show ?thesis
      by (simp add: splitTest_def clockwork_simps m_def)
  qed
qed

lemma clockwork_split_mono:
  "\<forall>s t. s \<le> t \<and> t \<le> 2 \<and> - 1 \<le> s \<and> splitTest clockwork (- 86400000) 11 t
     \<longrightarrow> splitTest clockwork (- 86400000) 11 s"
proof (intro allI impI)
  fix s t :: real
  assume h: "s \<le> t \<and> t \<le> 2 \<and> - 1 \<le> s \<and> splitTest clockwork (- 86400000) 11 t"
  then have "dateOfMs (- 86400000 + t * 86400000) < - 21600000"
    using clockwork_split_test [of t] by simp
  moreover have "dateOfMs (- 86400000 + s * 86400000) \<le> dateOfMs (- 86400000 + t * 86400000)"
    unfolding dateOfMs_def using h by (intro js_trunc_mono) simp
  ultimately have "dateOfMs (- 86400000 + s * 86400000) < - 21600000" by linarith
  then show "splitTest clockwork (- 86400000) 11 s"
    using clockwork_split_test [of s] h by simp
qed

text \<open>
  The split of day \<open>- 1\<close> of the clockwork almanac, on which Aries begins at 18:00.
\<close>

theorem bisectFraction_bracket_witness:
  "mSplitFraction (CalendarDate clockwork (- 86400000))
     = Some (bisectFraction (splitTest clockwork (- 86400000) 11))
   \<and> splitTest clockwork (- 86400000) 11 0
   \<and> \<not> splitTest clockwork (- 86400000) 11 1
   \<and> splitTest clockwork (- 86400000) 11
        (bisectFraction (splitTest clockwork (- 86400000) 11) - 1 / 2 ^ 20)
   \<and> \<not> splitTest clockwork (- 86400000) 11
        (bisectFraction (splitTest clockwork (- 86400000) 11) + 1 / 2 ^ 20)"
proof -
  have p0: "splitTest clockwork (- 86400000) 11 0"
    by (simp add: splitTest_def clockwork_simps dateOfMs_def js_trunc_def)
  have p1: "\<not> splitTest clockwork (- 86400000) 11 1"
    by (simp add: splitTest_def clockwork_simps dateOfMs_def js_trunc_def)
  have f: "mSplitFraction (CalendarDate clockwork (- 86400000))
            = Some (bisectFraction (splitTest clockwork (- 86400000) 11))"
    by (simp add: CalendarDate_def Let_def clockwork_simps endOfDay_def findSplitFraction_def)
  from bisectFraction_bracket [OF p0 p1] clockwork_split_mono p0 p1 f
  show ?thesis by blast
qed

lemma bisect_never:
  assumes "\<forall>t. lo < t \<and> t < hi \<longrightarrow> \<not> p t" and "lo < hi"
  shows "bisect p n lo hi = (lo, lo + (hi - lo) / 2 ^ n)"
  using assms
proof (induction n arbitrary: hi)
  case 0
  then show ?case by simp
next
  case (Suc n)
  define mid where "mid = (lo + hi) / 2"
  have m: "lo < mid" "mid < hi" using Suc.prems(2) by (simp_all add: mid_def)
  then have np: "\<not> p mid" using Suc.prems(1) by blast
  have "\<forall>t. lo < t \<and> t < mid \<longrightarrow> \<not> p t"
    using Suc.prems(1) m by auto
  from Suc.IH [OF this m(1)] np show ?case
    by (simp add: Let_def mid_def field_simps)
qed

lemma fallback_test_false:
  assumes "0 < t" "t < 1"
  shows "\<not> phaseTest fallback 176400000 0 t"
proof -
  define m where "m = dateOfMs (176400000 + t * 86400000)"
  have "js_trunc 176400000 \<le> m"
    unfolding m_def dateOfMs_def using assms by (intro js_trunc_mono) simp
  moreover have "m \<le> js_trunc 262800000"
    unfolding m_def dateOfMs_def using assms by (intro js_trunc_mono) simp
  moreover have "js_trunc 176400000 = 176400000" "js_trunc 262800000 = 262800000"
    using js_trunc_of_int [of 176400000] js_trunc_of_int [of 262800000] by simp_all
  ultimately have b: "176400000 \<le> m" "m \<le> 262800000" by simp_all
  have "(m + 430200000) div 604800000 = 1"
    by (rule int_div_pos_eq [where r = "m + 430200000 - 604800000"]) (use b in simp_all)
  then show ?thesis
    by (simp add: phaseTest_def fallback_simps m_def)
qed

lemma fallback_fraction:
  "bisectFraction (phaseTest fallback 176400000 0) = 1 / 2 ^ 21"
proof -
  have "bisect (phaseTest fallback 176400000 0) 20 0 1 = (0, 0 + (1 - 0) / 2 ^ 20)"
    by (rule bisect_never) (use fallback_test_false in auto)
  then show ?thesis by (simp add: bisectFraction_def)
qed

text \<open>
  C6 as claimed fails on the host whose clocks go back.  The quarter changes in the
  extra hour, after \<open>endOfDay\<close> of day 1 and before the midnight of day 2, so the test
  of \<open>_findPhaseFraction\<close> on day 2 is false from the start: the fraction returned is
  \<open>1 / 2 ^ 21\<close>, and at \<open>1 / 2 ^ 21 - 1 / 2 ^ 20\<close> the test does not hold.
\<close>

theorem phaseFraction_counterexample:
  "mIsPhaseStart (snd (next_date fallback (CalendarDate fallback 86400000)))
   \<and> mPhaseFraction (snd (next_date fallback (CalendarDate fallback 86400000))) = Some (1 / 2 ^ 21)
   \<and> \<not> phaseTest fallback (today (snd (next_date fallback (CalendarDate fallback 86400000))))
        (js_rem_int (mLunarPhase (snd (next_date fallback (CalendarDate fallback 86400000))) + 3) 4)
        (1 / 2 ^ 21 - 1 / 2 ^ 20)"
proof -
  define a where "a = CalendarDate fallback 86400000"
  define n where "n = CalendarDate fallback (nextDayOf fallback (today a))"
  have a: "today a = 86400000" "mLunarPhase a = 0"
    by (simp_all add: a_def CalendarDate_fields fallback_simps endOfDay_def)
  have n: "today n = 176400000" "mLunarPhase n = 1"
    by (simp_all add: n_def a CalendarDate_fields fallback_simps endOfDay_def)
  have old: "js_rem_int 4 4 = 0" by (simp add: js_rem_int_def)
  have f: "findPhaseFraction fallback (n\<lparr> mIsPhaseStart := True \<rparr>) = 1 / 2 ^ 21"
    using fallback_fraction by (simp add: findPhaseFraction_def Let_def n old)
  have s: "snd (next_date fallback a)
           = n\<lparr> mIsPhaseStart := True, mPhaseFraction := Some (1 / 2 ^ 21),
                mPlace := \<lparr> px = px (mPlace a) - 19 / 6, py = py (mPlace a) + 1 / 2 \<rparr> \<rparr>"
    unfolding next_date_def Let_def n_def [symmetric]
    by (simp add: a n f)
  have "\<not> phaseTest fallback 176400000 0 (1 / 2 ^ 21 - 1 / 2 ^ 20)"
    by (simp add: phaseTest_def fallback_simps dateOfMs_def js_trunc_def)
  then show ?thesis
    unfolding a_def [symmetric] s by (simp add: n old)
qed


section \<open>The season layout\<close>

lemma season_loop_chain:
  assumes "successively linked (seasonCalendar acc)"
    and "seasonCalendar acc = [] \<or> linked (last (seasonCalendar acc)) current"
    and "\<not> mIsPhaseEnd current"
  shows "successively linked (seasonCalendar (season_loop w targetSeason n current acc))"
  using assms
proof (induction n arbitrary: current acc)
  case 0
  then show ?case by simp
next
  case (Suc n)
  show ?case
  proof (cases "mSeason current \<noteq> targetSeason")
    case True
    with Suc.prems show ?thesis by simp
  next
    case False
    obtain a b where ab: "next_date w current = (a, b)"
      by (cases "next_date w current")
    note nd = next_date_linked [OF ab Suc.prems(3)]
    let ?acc = "\<lparr> seasonCalendar = seasonCalendar acc @ [a],
                   bounds = extendBounds (bounds acc) current \<rparr>"
    have la: "seasonCalendar acc = [] \<or> linked (last (seasonCalendar acc)) a"
      using Suc.prems(2) nd by (auto intro: linked_cong)
    have s: "successively linked (seasonCalendar ?acc)"
      using Suc.prems(1) la by (auto simp: successively_append_iff)
    have l: "seasonCalendar ?acc = [] \<or> linked (last (seasonCalendar ?acc)) b"
      using nd by simp
    have "successively linked (seasonCalendar (season_loop w targetSeason n b ?acc))"
      using Suc.IH [OF s l] nd by simp
    with False ab show ?thesis by simp
  qed
qed

lemma constructSeason_chain:
  "successively linked (seasonCalendar (constructSeason w date))"
  unfolding constructSeason_def Let_def
  by (rule season_loop_chain) (simp_all add: CalendarDate_flags)


text \<open>
  C1, as the code has it.  In the list built by \<open>constructSeason\<close>, each day and the
  day after it are \<open>linked\<close>: same quarter, same row, half a unit to the right, no
  flag; or another quarter, half a unit down, \<open>19 / 6\<close> to the left, and both
  \<open>mIsPhaseEnd\<close> of the earlier day and \<open>mIsPhaseStart\<close> of the later day set.
\<close>

theorem constructSeason_tiling:
  assumes "Suc i < length (seasonCalendar (constructSeason w date))"
  shows "linked (seasonCalendar (constructSeason w date) ! i)
                (seasonCalendar (constructSeason w date) ! Suc i)"
  using constructSeason_chain [of w date] assms
  by (simp add: successively_conv_nth)

lemma season_loop_prefix:
  "\<exists>rest. seasonCalendar (season_loop w targetSeason n current acc) = seasonCalendar acc @ rest"
proof (induction n arbitrary: current acc)
  case 0
  then show ?case by simp
next
  case (Suc n)
  show ?case
  proof (cases "mSeason current \<noteq> targetSeason")
    case True
    then show ?thesis by simp
  next
    case False
    obtain a b where ab: "next_date w current = (a, b)"
      by (cases "next_date w current")
    let ?acc = "\<lparr> seasonCalendar = seasonCalendar acc @ [a],
                   bounds = extendBounds (bounds acc) current \<rparr>"
    obtain rest where "seasonCalendar (season_loop w targetSeason n b ?acc)
                         = seasonCalendar ?acc @ rest"
      using Suc.IH by blast
    with False ab show ?thesis by simp
  qed
qed

lemma season_loop_two:
  assumes "mSeason c0 = targetSeason" and "mSeason (snd (next_date w c0)) = targetSeason"
  shows "\<exists>rest. seasonCalendar (season_loop w targetSeason (Suc (Suc n)) c0
                   \<lparr> seasonCalendar = [], bounds = None \<rparr>)
           = fst (next_date w c0) # fst (next_date w (snd (next_date w c0))) # rest"
proof -
  obtain a0 c1 where n0: "next_date w c0 = (a0, c1)" by (cases "next_date w c0")
  obtain a1 c2 where n1: "next_date w c1 = (a1, c2)" by (cases "next_date w c1")
  obtain rest where
    "seasonCalendar (season_loop w targetSeason n c2
        \<lparr> seasonCalendar = [a0, a1],
          bounds = extendBounds (extendBounds None c0) c1 \<rparr>) = [a0, a1] @ rest"
    using season_loop_prefix [of w targetSeason n c2
        "\<lparr> seasonCalendar = [a0, a1], bounds = extendBounds (extendBounds None c0) c1 \<rparr>"]
    by auto
  then show ?thesis
    using assms n0 n1 by simp
qed

lemma ffl: "findFirst_loop clockwork 0 0 (Suc (Suc n)) 0 = - 86400000"
  by (simp add: endOfDay_def Let_def clockwork_simps)

lemma clockwork_first: "findFirstInSeason clockwork 0 = - 86400000"
  using ffl [of 198] by (simp add: findFirstInSeason_def Let_def endOfDay_def clockwork_simps)

lemma clockwork_spring:
  "\<exists>rest. seasonCalendar (constructSeason clockwork 0)
     = fst (next_date clockwork spring0)
       # fst (next_date clockwork (snd (next_date clockwork spring0))) # rest"
proof -
  have s0: "mSeason spring0 = 0"
    by (simp add: spring0_def CalendarDate_fields clockwork_simps endOfDay_def)
  have s1: "mSeason (snd (next_date clockwork spring0)) = 0"
    by (simp add: next_date_snd spring0_def CalendarDate_fields clockwork_simps endOfDay_def)
  have "constructSeason clockwork 0
          = season_loop clockwork 0 (Suc (Suc 198)) spring0 \<lparr> seasonCalendar = [], bounds = None \<rparr>"
    unfolding constructSeason_def Let_def clockwork_first spring0_def [symmetric] s0
    by simp
  with season_loop_two [of spring0 0 clockwork 198] s0 s1 show ?thesis
    by simp
qed

lemma clockwork_spring_quarters:
  "mLunarPhase (fst (next_date clockwork spring0)) = 0"
  "mLunarPhase (fst (next_date clockwork (snd (next_date clockwork spring0)))) = 1"
  by (simp_all add: next_date_fst next_date_snd spring0_def CalendarDate_fields
        clockwork_simps endOfDay_def)


lemma clockwork_spring_nth:
  "Suc 0 < length (seasonCalendar (constructSeason clockwork 0))"
  "mLunarPhase (seasonCalendar (constructSeason clockwork 0) ! 0) = 0"
  "mLunarPhase (seasonCalendar (constructSeason clockwork 0) ! Suc 0) = 1"
proof -
  obtain rest where r: "seasonCalendar (constructSeason clockwork 0)
     = fst (next_date clockwork spring0)
       # fst (next_date clockwork (snd (next_date clockwork spring0))) # rest"
    using clockwork_spring by blast
  show "Suc 0 < length (seasonCalendar (constructSeason clockwork 0))"
    by (simp add: r)
  show "mLunarPhase (seasonCalendar (constructSeason clockwork 0) ! 0) = 0"
    by (simp add: r clockwork_spring_quarters)
  show "mLunarPhase (seasonCalendar (constructSeason clockwork 0) ! Suc 0) = 1"
    by (simp add: r clockwork_spring_quarters)
qed

text \<open>The first two days of the clockwork spring.\<close>

theorem constructSeason_tiling_witness:
  "Suc 0 < length (seasonCalendar (constructSeason clockwork 0))
   \<and> linked (seasonCalendar (constructSeason clockwork 0) ! 0)
             (seasonCalendar (constructSeason clockwork 0) ! Suc 0)"
  using constructSeason_tiling [of 0 clockwork 0] clockwork_spring_nth(1)
  by simp

text \<open>
  C1 as claimed fails between the first two days of the clockwork spring: the lunar
  quarter changes from 0 to 1, and both flags are set, not exactly one of them.
\<close>

theorem constructSeason_flags_counterexample:
  "mLunarPhase (seasonCalendar (constructSeason clockwork 0) ! Suc 0)
     \<noteq> mLunarPhase (seasonCalendar (constructSeason clockwork 0) ! 0)
   \<and> mIsPhaseEnd (seasonCalendar (constructSeason clockwork 0) ! 0)
   \<and> mIsPhaseStart (seasonCalendar (constructSeason clockwork 0) ! Suc 0)"
proof -
  have "linked (seasonCalendar (constructSeason clockwork 0) ! 0)
               (seasonCalendar (constructSeason clockwork 0) ! Suc 0)"
    using constructSeason_chain [of clockwork 0] clockwork_spring_nth(1)
    by (simp add: successively_conv_nth)
  then show ?thesis
    by (simp add: linked_def clockwork_spring_nth)
qed

section \<open>The iteration caps\<close>

lemma findFirst_loop_fallback:
  assumes "\<forall>i. 1 \<le> i \<and> i \<le> int n \<longrightarrow> seasonAt w (endOfDay w (d - i * 86400000)) = targetSeason"
  shows "findFirst_loop w date targetSeason n d = midnightOf w date"
  using assms
proof (induction n arbitrary: d)
  case 0
  then show ?case by simp
next
  case (Suc n)
  have first: "seasonAt w (endOfDay w (d - 86400000)) = targetSeason"
    using Suc.prems [rule_format, of 1] by simp
  have "\<forall>i. 1 \<le> i \<and> i \<le> int n
          \<longrightarrow> seasonAt w (endOfDay w (d - 86400000 - i * 86400000)) = targetSeason"
  proof (intro allI impI)
    fix i :: int
    assume i: "1 \<le> i \<and> i \<le> int n"
    then have "1 \<le> i + 1 \<and> i + 1 \<le> int (Suc n)" by simp
    with Suc.prems have "seasonAt w (endOfDay w (d - (i + 1) * 86400000)) = targetSeason"
      by blast
    moreover have "d - (i + 1) * 86400000 = d - 86400000 - i * 86400000"
      by (simp add: algebra_simps)
    ultimately show "seasonAt w (endOfDay w (d - 86400000 - i * 86400000)) = targetSeason"
      by (simp only:)
  qed
  from Suc.IH [OF this] first show ?case
    by (simp add: Let_def)
qed

lemma season_loop_length_le:
  "length (seasonCalendar (season_loop w targetSeason n current acc))
     \<le> length (seasonCalendar acc) + n"
proof (induction n arbitrary: current acc)
  case 0
  then show ?case by simp
next
  case (Suc n)
  show ?case
  proof (cases "mSeason current \<noteq> targetSeason")
    case True
    then show ?thesis by simp
  next
    case False
    obtain a b where ab: "next_date w current = (a, b)"
      by (cases "next_date w current")
    let ?acc = "\<lparr> seasonCalendar = seasonCalendar acc @ [a],
                   bounds = extendBounds (bounds acc) current \<rparr>"
    have "length (seasonCalendar (season_loop w targetSeason n b ?acc))
            \<le> length (seasonCalendar ?acc) + n"
      by (rule Suc.IH)
    with False ab show ?thesis by simp
  qed
qed

lemma season_loop_length_full:
  assumes "\<forall>k. k < n \<longrightarrow> mSeason (walk w current k) = targetSeason"
  shows "length (seasonCalendar (season_loop w targetSeason n current acc))
           = length (seasonCalendar acc) + n"
  using assms
proof (induction n arbitrary: current acc)
  case 0
  then show ?case by simp
next
  case (Suc n)
  have here: "mSeason current = targetSeason"
    using Suc.prems [rule_format, of 0] by (simp add: walk_def)
  obtain a b where ab: "next_date w current = (a, b)"
    by (cases "next_date w current")
  let ?acc = "\<lparr> seasonCalendar = seasonCalendar acc @ [a],
                 bounds = extendBounds (bounds acc) current \<rparr>"
  have "\<forall>k. k < n \<longrightarrow> mSeason (walk w b k) = targetSeason"
  proof (intro allI impI)
    fix k assume "k < n"
    then have "mSeason (walk w current (Suc k)) = targetSeason"
      using Suc.prems by simp
    moreover have "walk w current (Suc k) = walk w b k"
      using ab by (simp add: walk_def funpow_Suc_right del: funpow.simps)
    ultimately show "mSeason (walk w b k) = targetSeason" by simp
  qed
  from Suc.IH [OF this, of ?acc] here ab show ?case by simp
qed


lemma CalendarDate_placed:
  "(CalendarDate w d) \<lparr> mPlace := \<lparr> px = 0, py = 0 \<rparr> \<rparr> = CalendarDate w d"
  by (simp add: CalendarDate_def Let_def)

lemma constructSeason_length_le:
  "length (seasonCalendar (constructSeason w date)) \<le> 200"
  using season_loop_length_le
    [of w "mSeason (CalendarDate w (findFirstInSeason w date))" 200
        "CalendarDate w (findFirstInSeason w date)" "\<lparr> seasonCalendar = [], bounds = None \<rparr>"]
  by (simp add: constructSeason_def Let_def CalendarDate_placed)

lemma findFirstInSeason_cap:
  assumes "\<forall>i. 1 \<le> i \<and> i \<le> 200
             \<longrightarrow> seasonAt w (endOfDay w (midnightOf w date - i * 86400000))
                   = seasonAt w (endOfDay w (midnightOf w date))"
  shows "findFirstInSeason w date = midnightOf w date"
  unfolding findFirstInSeason_def Let_def
  by (rule findFirst_loop_fallback) (use assms in simp)

lemma constructSeason_cap:
  assumes "\<forall>k. k < 200 \<longrightarrow> mSeason (walk w (CalendarDate w (findFirstInSeason w date)) k)
                              = mSeason (CalendarDate w (findFirstInSeason w date))"
  shows "length (seasonCalendar (constructSeason w date)) = 200"
  using season_loop_length_full [OF assms, of "\<lparr> seasonCalendar = [], bounds = None \<rparr>"]
  by (simp add: constructSeason_def Let_def CalendarDate_placed)

text \<open>
  C4, as the code has it.  When none of the 200 days before the anchor ends in another
  season, \<open>findFirstInSeason\<close> returns the local midnight of the anchor itself; when
  the first 200 days of the walk all have the target season, \<open>constructSeason\<close>
  returns those 200 days.  Both return normally; the layout never has more than 200
  days.
\<close>

theorem iteration_cap_returns:
  assumes "\<forall>i. 1 \<le> i \<and> i \<le> 200
             \<longrightarrow> seasonAt w (endOfDay w (midnightOf w date - i * 86400000))
                   = seasonAt w (endOfDay w (midnightOf w date))"
    and "\<forall>k. k < 200 \<longrightarrow> mSeason (walk w (CalendarDate w (findFirstInSeason w date)) k)
                              = mSeason (CalendarDate w (findFirstInSeason w date))"
  shows "findFirstInSeason w date = midnightOf w date
         \<and> length (seasonCalendar (constructSeason w date)) = 200"
  using findFirstInSeason_cap [OF assms(1)] constructSeason_cap [OF assms(2)]
  by simp

lemma stuck_walk:
  "mSeason c = 0 \<Longrightarrow> mSeason (walk stuck c k) = 0"
  by (cases k) (simp_all add: walk_def next_date_snd CalendarDate_fields stuck_simps)

lemma stuck_back:
  "\<forall>i. 1 \<le> i \<and> i \<le> 200
     \<longrightarrow> seasonAt stuck (endOfDay stuck (midnightOf stuck date - i * 86400000))
           = seasonAt stuck (endOfDay stuck (midnightOf stuck date))"
  by (simp add: stuck_simps)

lemma stuck_forward:
  "\<forall>k. k < 200 \<longrightarrow> mSeason (walk stuck (CalendarDate stuck (findFirstInSeason stuck date)) k)
                       = mSeason (CalendarDate stuck (findFirstInSeason stuck date))"
  by (simp add: stuck_walk CalendarDate_fields stuck_simps)

text \<open>The world whose season never changes, from the day at 0.\<close>

theorem iteration_cap_returns_witness:
  "findFirstInSeason stuck 0 = midnightOf stuck 0
   \<and> length (seasonCalendar (constructSeason stuck 0)) = 200"
  using iteration_cap_returns [OF stuck_back stuck_forward, of 0]
  by simp

text \<open>
  C4 as claimed fails in the world whose season never changes: from the day at
  86 400 000, no season boundary is found in 200 steps back, and \<open>findFirstInSeason\<close>
  returns 86 400 000, the anchor's midnight; the walk forward stays in the season for
  200 days, and \<open>constructSeason\<close> returns those 200 days.  Nothing is raised.
\<close>

theorem iteration_cap_counterexample:
  "list_all (\<lambda>i. seasonAt stuck (endOfDay stuck (midnightOf stuck 86400000 - i * 86400000))
                   = seasonAt stuck (endOfDay stuck (midnightOf stuck 86400000))) [1..200]
   \<and> findFirstInSeason stuck 86400000 = 86400000
   \<and> list_all (\<lambda>k. mSeason (walk stuck (CalendarDate stuck (findFirstInSeason stuck 86400000)) k)
                     = mSeason (CalendarDate stuck (findFirstInSeason stuck 86400000))) [0..<200]
   \<and> length (seasonCalendar (constructSeason stuck 86400000)) = 200"
proof -
  have a: "list_all (\<lambda>i. seasonAt stuck (endOfDay stuck (midnightOf stuck 86400000 - i * 86400000))
                   = seasonAt stuck (endOfDay stuck (midnightOf stuck 86400000))) [1..200]"
    by (simp add: list_all_iff stuck_simps)
  have b: "findFirstInSeason stuck 86400000 = 86400000"
    using findFirstInSeason_cap [OF stuck_back, of 86400000] by (simp add: stuck_simps)
  have c: "list_all (\<lambda>k. mSeason (walk stuck (CalendarDate stuck (findFirstInSeason stuck 86400000)) k)
                     = mSeason (CalendarDate stuck (findFirstInSeason stuck 86400000))) [0..<200]"
    using stuck_forward [of 86400000] by (simp add: list_all_iff)
  have d: "length (seasonCalendar (constructSeason stuck 86400000)) = 200"
    by (rule constructSeason_cap [OF stuck_forward])
  from a b c d show ?thesis by blast
qed

section \<open>The Kepler loop\<close>

lemma cos_near_one: "\<bar>cos d - 1\<bar> \<le> d\<^sup>2 / 2" for d :: real
proof -
  have c: "cos d = 1 - 2 * (sin (d / 2))\<^sup>2"
    using cos_double_sin [of "d / 2"] by simp
  have "\<bar>sin (d / 2)\<bar> \<le> \<bar>d / 2\<bar>"
    by (rule abs_sin_x_le_abs_x)
  then have "(sin (d / 2))\<^sup>2 \<le> (d / 2)\<^sup>2"
    by (simp only: abs_le_square_iff)
  then have "2 * (sin (d / 2))\<^sup>2 \<le> d\<^sup>2 / 2"
    by (simp add: power2_eq_square)
  moreover have "\<bar>cos d - 1\<bar> = 2 * (sin (d / 2))\<^sup>2"
    unfolding c by simp
  ultimately show ?thesis by simp
qed

lemma sin_near_id: "\<bar>sin d - d\<bar> \<le> d\<^sup>2 / 2" for d :: real
proof -
  have "\<bar>sin d - (\<Sum>m<2. sin_coeff m * d ^ m)\<bar> \<le> inverse (fact 2) * \<bar>d\<bar> ^ 2"
    by (rule Maclaurin_sin_bound)
  moreover have "sin_coeff 0 = 0" "sin_coeff (Suc 0) = 1"
    by (simp_all add: sin_coeff_def)
  then have "(\<Sum>m<2. sin_coeff m * d ^ m) = d"
    by (simp add: numeral_2_eq_2)
  moreover have "inverse (fact 2) * \<bar>d\<bar> ^ 2 = d\<^sup>2 / 2"
    by (simp add: numeral_2_eq_2)
  ultimately show ?thesis by simp
qed

lemma sin_taylor2: "\<bar>sin (e + d) - sin e - d * cos e\<bar> \<le> d\<^sup>2" for d e :: real
proof -
  have eq: "sin (e + d) - sin e - d * cos e = sin e * (cos d - 1) + cos e * (sin d - d)"
    by (simp add: sin_add algebra_simps)
  have a: "\<bar>sin e * (cos d - 1)\<bar> \<le> 1 * (d\<^sup>2 / 2)"
    unfolding abs_mult by (rule mult_mono [OF abs_sin_le_one cos_near_one]) simp_all
  have b: "\<bar>cos e * (sin d - d)\<bar> \<le> 1 * (d\<^sup>2 / 2)"
    unfolding abs_mult by (rule mult_mono [OF abs_cos_le_one sin_near_id]) simp_all
  have "\<bar>sin e * (cos d - 1) + cos e * (sin d - d)\<bar>
          \<le> \<bar>sin e * (cos d - 1)\<bar> + \<bar>cos e * (sin d - d)\<bar>"
    by (rule abs_triangle_ineq)
  with a b show ?thesis unfolding eq by linarith
qed

lemma sin_taylor2_far: "\<bar>sin (e + d) - sin e - d * cos e\<bar> \<le> 2 + \<bar>d\<bar>" for d e :: real
proof -
  have "\<bar>d * cos e\<bar> \<le> \<bar>d\<bar> * 1"
    unfolding abs_mult by (rule mult_left_mono) simp_all
  moreover have "\<bar>sin (e + d)\<bar> \<le> 1" "\<bar>sin e\<bar> \<le> 1" by simp_all
  ultimately show ?thesis by linarith
qed

lemma newton_denominator:
  assumes "0 \<le> k"
  shows "1 - k \<le> 1 - k * cos (e::real)"
proof -
  have "k * cos e \<le> k * 1"
    by (rule mult_left_mono) (use assms in simp_all)
  then show ?thesis by simp
qed

lemma newton_step_abs:
  assumes "0 \<le> k" "k < 1"
  shows "\<bar>newton_next k x e - e\<bar> \<le> \<bar>newton_dl k x e\<bar> / (1 - k)"
proof -
  have d: "1 - k \<le> 1 - k * cos e" by (rule newton_denominator [OF assms(1)])
  have p: "0 < 1 - k * cos e" using d assms by linarith
  have "newton_next k x e - e = - (newton_dl k x e / (1 - k * cos e))"
    by (simp add: newton_next_def)
  then have "\<bar>newton_next k x e - e\<bar> = \<bar>newton_dl k x e\<bar> / \<bar>1 - k * cos e\<bar>"
    by (simp only: abs_minus abs_divide)
  also have "\<bar>1 - k * cos e\<bar> = 1 - k * cos e" using p by simp
  also have "\<bar>newton_dl k x e\<bar> / (1 - k * cos e) \<le> \<bar>newton_dl k x e\<bar> / (1 - k)"
    by (rule divide_left_mono) (use d assms p in \<open>simp_all add: mult_pos_pos\<close>)
  finally show ?thesis .
qed

lemma newton_dl_next:
  assumes "0 \<le> k" "k < 1"
  shows "newton_dl k x (newton_next k x e)
     = - k * (sin (e + (newton_next k x e - e)) - sin e - (newton_next k x e - e) * cos e)"
proof -
  have d: "1 - k * cos e \<noteq> 0"
    using newton_denominator [OF assms(1), of e] assms by linarith
  define h where "h = newton_dl k x e / (1 - k * cos e)"
  have hd: "newton_dl k x e = h * (1 - k * cos e)"
    using d by (simp add: h_def)
  have n: "newton_next k x e = e - h" by (simp add: newton_next_def h_def)
  have "newton_dl k x (e - h) = newton_dl k x e - h - k * (sin (e - h) - sin e)"
    by (simp add: newton_dl_def algebra_simps)
  also have "\<dots> = h * (1 - k * cos e) - h - k * (sin (e - h) - sin e)"
    using hd by simp
  also have "\<dots> = - k * (sin (e - h) - sin e + h * cos e)"
    by (simp add: algebra_simps)
  finally show ?thesis by (simp add: n)
qed

lemma newton_quadratic:
  assumes "0 \<le> k" "k < 1"
  shows "\<bar>newton_dl k x (newton_next k x e)\<bar> \<le> k * (\<bar>newton_dl k x e\<bar> / (1 - k))\<^sup>2"
proof -
  define d where "d = newton_next k x e - e"
  have "newton_dl k x (newton_next k x e) = - k * (sin (e + d) - sin e - d * cos e)"
    unfolding d_def by (rule newton_dl_next [OF assms])
  then have "\<bar>newton_dl k x (newton_next k x e)\<bar> = k * \<bar>sin (e + d) - sin e - d * cos e\<bar>"
    using assms by (simp add: abs_mult)
  also have "\<dots> \<le> k * d\<^sup>2"
    by (rule mult_left_mono [OF sin_taylor2]) (use assms in simp)
  also have "d\<^sup>2 \<le> (\<bar>newton_dl k x e\<bar> / (1 - k))\<^sup>2"
  proof -
    have "\<bar>d\<bar> \<le> \<bar>newton_dl k x e\<bar> / (1 - k)"
      unfolding d_def by (rule newton_step_abs [OF assms])
    then have "\<bar>d\<bar>\<^sup>2 \<le> (\<bar>newton_dl k x e\<bar> / (1 - k))\<^sup>2"
      by (intro power_mono) simp_all
    then show ?thesis by simp
  qed
  finally show ?thesis using assms by (simp add: mult_left_mono)
qed

lemma newton_linear:
  assumes "0 \<le> k" "k < 1"
  shows "\<bar>newton_dl k x (newton_next k x e)\<bar> \<le> k * (2 + \<bar>newton_dl k x e\<bar> / (1 - k))"
proof -
  define d where "d = newton_next k x e - e"
  have "newton_dl k x (newton_next k x e) = - k * (sin (e + d) - sin e - d * cos e)"
    unfolding d_def by (rule newton_dl_next [OF assms])
  then have "\<bar>newton_dl k x (newton_next k x e)\<bar> = k * \<bar>sin (e + d) - sin e - d * cos e\<bar>"
    using assms by (simp add: abs_mult)
  also have "\<dots> \<le> k * (2 + \<bar>d\<bar>)"
    by (rule mult_left_mono [OF sin_taylor2_far]) (use assms in simp)
  also have "\<dots> \<le> k * (2 + \<bar>newton_dl k x e\<bar> / (1 - k))"
    by (rule mult_left_mono) (use newton_step_abs [OF assms, of x e] assms in \<open>simp_all add: d_def\<close>)
  finally show ?thesis .
qed


lemma kepler_quadratic:
  "\<bar>newton_dl 0.016718 x (newton_next 0.016718 x e)\<bar>
     \<le> 173 / 10000 * \<bar>newton_dl 0.016718 x e\<bar>\<^sup>2"
proof -
  define r where "r = \<bar>newton_dl 0.016718 x e\<bar>"
  have "\<bar>newton_dl 0.016718 x (newton_next 0.016718 x e)\<bar>
          \<le> 0.016718 * (r / (1 - 0.016718))\<^sup>2"
    unfolding r_def by (rule newton_quadratic) simp_all
  also have "0.016718 * (r / (1 - 0.016718))\<^sup>2 = (0.016718 / (0.983282)\<^sup>2) * r\<^sup>2"
    by (simp add: power_divide)
  also have "\<dots> \<le> 173 / 10000 * r\<^sup>2"
    by (rule mult_right_mono) (simp_all add: power2_eq_square)
  finally show ?thesis unfolding r_def .
qed

lemma kepler_linear:
  "\<bar>newton_dl 0.016718 x (newton_next 0.016718 x e)\<bar>
     \<le> 335 / 10000 + 171 / 10000 * \<bar>newton_dl 0.016718 x e\<bar>"
proof -
  define r where "r = \<bar>newton_dl 0.016718 x e\<bar>"
  have r0: "0 \<le> r" by (simp add: r_def)
  have "\<bar>newton_dl 0.016718 x (newton_next 0.016718 x e)\<bar>
          \<le> 0.016718 * (2 + r / (1 - 0.016718))"
    unfolding r_def by (rule newton_linear) simp_all
  also have "0.016718 * (2 + r / (1 - 0.016718)) = 0.033436 + (0.016718 / 0.983282) * r"
    by (simp add: algebra_simps)
  also have "\<dots> \<le> 335 / 10000 + 171 / 10000 * r"
    by (rule add_mono, simp, rule mult_right_mono) (simp_all add: r0)
  finally show ?thesis unfolding r_def .
qed

lemma square_bound:
  fixes r u :: real
  assumes "0 \<le> r" "r \<le> u"
  shows "r\<^sup>2 \<le> u\<^sup>2"
  using assms by (intro power_mono) simp_all

lemma kepler_rank_decreases:
  assumes "1 / 10 ^ 12 \<le> \<bar>newton_dl 0.016718 x e\<bar>"
  shows "kepler_rank \<bar>newton_dl 0.016718 x (newton_next 0.016718 x e)\<bar>
           < kepler_rank \<bar>newton_dl 0.016718 x e\<bar>"
proof -
  define r where "r = \<bar>newton_dl 0.016718 x e\<bar>"
  define r' where "r' = \<bar>newton_dl 0.016718 x (newton_next 0.016718 x e)\<bar>"
  have q: "r' \<le> 173 / 10000 * r\<^sup>2"
    unfolding r_def r'_def by (rule kepler_quadratic)
  have l: "r' \<le> 335 / 10000 + 171 / 10000 * r"
    unfolding r_def r'_def by (rule kepler_linear)
  have r0: "1 / 10 ^ 12 \<le> r" using assms by (simp add: r_def)
  have rp: "0 \<le> r" by (simp add: r_def)
  consider (a) "r < 7 / 10 ^ 6" | (b) "7 / 10 ^ 6 \<le> r" "r < 2 / 10 ^ 2"
    | (c) "2 / 10 ^ 2 \<le> r" "r < 1" | (d) "1 \<le> r" by linarith
  then have "kepler_rank r' < kepler_rank r"
  proof cases
    case a
    have "r\<^sup>2 \<le> (7 / 10 ^ 6)\<^sup>2"
      by (rule square_bound) (use a rp in simp_all)
    then have "r' < 1 / 10 ^ 12" using q by (simp add: power2_eq_square)
    then show ?thesis using a r0 by (simp add: kepler_rank_def)
  next
    case b
    have "r\<^sup>2 \<le> (2 / 10 ^ 2)\<^sup>2"
      by (rule square_bound) (use b rp in simp_all)
    then have "r' < 7 / 10 ^ 6" using q by (simp add: power2_eq_square)
    then show ?thesis using b by (simp add: kepler_rank_def)
  next
    case c
    have "r\<^sup>2 \<le> 1\<^sup>2"
      by (rule square_bound) (use c rp in simp_all)
    then have "r' < 2 / 10 ^ 2" using q by simp
    then show ?thesis using c by (simp add: kepler_rank_def)
  next
    case d
    have rk: "kepler_rank r = 3 + nat \<lceil>r\<rceil>"
      using d by (simp add: kepler_rank_def)
    show ?thesis
    proof (cases "r' < 1")
      case True
      then have "kepler_rank r' \<le> 3" by (simp add: kepler_rank_def)
      moreover have "0 < \<lceil>r\<rceil>" using d by (simp add: less_ceiling_iff)
      then have "0 < nat \<lceil>r\<rceil>" by (simp only: zero_less_nat_eq)
      ultimately show ?thesis using rk by linarith
    next
      case False
      then have rk': "kepler_rank r' = 3 + nat \<lceil>r'\<rceil>" by (simp add: kepler_rank_def)
      have "r' \<le> r - 1" using l False by linarith
      then have "\<lceil>r'\<rceil> \<le> \<lceil>r - 1\<rceil>" by (rule ceiling_mono)
      then have lt: "\<lceil>r'\<rceil> < \<lceil>r\<rceil>" by simp
      note lt
      moreover have "0 < \<lceil>r'\<rceil>" using False by (simp add: less_ceiling_iff)
      ultimately have "nat \<lceil>r'\<rceil> < nat \<lceil>r\<rceil>" by linarith
      then show ?thesis using rk rk' by simp
    qed
  qed
  then show ?thesis by (simp add: r_def r'_def)
qed

termination kepler_loop
proof (relation "measure (\<lambda>(x, e). kepler_rank \<bar>newton_dl 0.016718 x e\<bar>)")
  show "wf (measure (\<lambda>(x, e). kepler_rank \<bar>newton_dl 0.016718 x e\<bar>))" by simp
next
  fix x e dl e' :: real
  assume "dl = e - 0.016718 * sin e - x" and "e' = e - dl / (1 - 0.016718 * cos e)"
    and "SMALL_FLOAT \<le> \<bar>dl\<bar>"
  then have "1 / 10 ^ 12 \<le> \<bar>newton_dl 0.016718 x e\<bar>" and "e' = newton_next 0.016718 x e"
    by (simp_all add: newton_dl_def newton_next_def SMALL_FLOAT_def)
  then show "((x, e'), (x, e)) \<in> measure (\<lambda>(x, e). kepler_rank \<bar>newton_dl 0.016718 x e\<bar>)"
    using kepler_rank_decreases [of x e] by simp
qed

declare kepler_loop.simps [simp del]




lemma kepler_loop_residual:
  "\<exists>e. \<bar>e - 0.016718 * sin e - x\<bar> < SMALL_FLOAT
       \<and> kepler_loop x e0 = e - (e - 0.016718 * sin e - x) / (1 - 0.016718 * cos e)"
proof (induction x e0 rule: kepler_loop.induct)
  case (1 x e)
  show ?case
  proof (cases "SMALL_FLOAT \<le> \<bar>e - 0.016718 * sin e - x\<bar>")
    case True
    with 1 [OF refl refl] show ?thesis
      by (subst kepler_loop.simps) (simp add: Let_def)
  next
    case False
    then show ?thesis
      by (subst kepler_loop.simps) (auto simp: Let_def intro!: exI [of _ e])
  qed
qed

section \<open>The loop of sunPosition on any machine\<close>





















section \<open>Ranges of the classifiers\<close>

lemma js_trunc_range:
  assumes "0 \<le> x" "x < real_of_int n"
  shows "0 \<le> js_trunc x \<and> js_trunc x \<le> n - 1"
proof -
  have "js_trunc x = \<lfloor>x\<rfloor>" using assms by (simp add: js_trunc_def)
  moreover have "0 \<le> \<lfloor>x\<rfloor>" using assms by simp
  moreover have "\<lfloor>x\<rfloor> < n" using assms by (simp add: floor_less_iff)
  ultimately show ?thesis by simp
qed

lemma sunAngle_turn: "0 \<le> sunAngle d / TPI \<and> sunAngle d / TPI < 1"
proof -
  have "0 \<le> sunAngle d \<and> sunAngle d < TPI"
    unfolding sunAngle_def sun_def Let_def by (rule range_angle_bounds)
  then show ?thesis using TPI_pos by simp
qed

lemma sign_range: "0 \<le> sign d \<and> sign d \<le> 11"
proof -
  define u where "u = sunAngle d / TPI"
  have "0 \<le> u" "u < 1" using sunAngle_turn [of d] by (simp_all add: u_def)
  then have "0 \<le> u * 12" "u * 12 < real_of_int 12" by simp_all
  then have "0 \<le> js_trunc (u * 12) \<and> js_trunc (u * 12) \<le> 12 - 1"
    by (rule js_trunc_range)
  then show ?thesis unfolding sign_def u_def by simp
qed

lemma season_range: "0 \<le> season d \<and> season d \<le> 3"
proof -
  define u where "u = sunAngle d / TPI"
  have "0 \<le> u" "u < 1" using sunAngle_turn [of d] by (simp_all add: u_def)
  then have "0 \<le> u * 4" "u * 4 < real_of_int 4" by simp_all
  then have "0 \<le> js_trunc (u * 4) \<and> js_trunc (u * 4) \<le> 4 - 1"
    by (rule js_trunc_range)
  then show ?thesis unfolding season_def u_def by simp
qed

lemma season_of_sign: "season d = sign d div 3"
proof -
  define u where "u = sunAngle d / TPI"
  have u: "0 \<le> u" using sunAngle_turn [of d] by (simp add: u_def)
  have "\<lfloor>u * 12 / real_of_int 3\<rfloor> = \<lfloor>u * 12\<rfloor> div 3"
    by (rule floor_divide_real_eq_div) simp
  moreover have "u * 12 / real_of_int 3 = u * 4" by simp
  ultimately have "\<lfloor>u * 4\<rfloor> = \<lfloor>u * 12\<rfloor> div 3" by (simp only:)
  moreover have "js_trunc (u * 4) = \<lfloor>u * 4\<rfloor>" "js_trunc (u * 12) = \<lfloor>u * 12\<rfloor>"
    using u by (simp_all add: js_trunc_def)
  ultimately show ?thesis unfolding season_def sign_def u_def by (simp only:)
qed


lemma reduce_nonneg:
  assumes "0 \<le> l"
  shows "0 \<le> l - real_of_int (js_trunc (l / 360)) * 360
         \<and> l - real_of_int (js_trunc (l / 360)) * 360 < 360"
proof -
  have t: "js_trunc (l / 360) = \<lfloor>l / 360\<rfloor>" using assms by (simp add: js_trunc_def)
  have "real_of_int \<lfloor>l / 360\<rfloor> \<le> l / 360" "l / 360 < real_of_int \<lfloor>l / 360\<rfloor> + 1"
    by linarith+
  then show ?thesis unfolding t by linarith
qed

lemma reduce_neg:
  assumes "l < 0"
  shows "- 360 < l - real_of_int (js_trunc (l / 360)) * 360
         \<and> l - real_of_int (js_trunc (l / 360)) * 360 \<le> 0"
proof -
  have t: "js_trunc (l / 360) = \<lceil>l / 360\<rceil>" using assms by (simp add: js_trunc_def)
  have "l / 360 \<le> real_of_int \<lceil>l / 360\<rceil>" "real_of_int \<lceil>l / 360\<rceil> < l / 360 + 1"
    by linarith+
  then show ?thesis unfolding t by linarith
qed

lemma reduce_any:
  "0 \<le> (if l - real_of_int (js_trunc (l / 360)) * 360 < 0
          then l - real_of_int (js_trunc (l / 360)) * 360 + 360
          else l - real_of_int (js_trunc (l / 360)) * 360)
   \<and> (if l - real_of_int (js_trunc (l / 360)) * 360 < 0
          then l - real_of_int (js_trunc (l / 360)) * 360 + 360
          else l - real_of_int (js_trunc (l / 360)) * 360) < 360"
proof (cases "0 \<le> l")
  case True
  from reduce_nonneg [OF this] show ?thesis by simp
next
  case False
  then have "l < 0" by simp
  from reduce_neg [OF this] show ?thesis by (simp split: if_splits)
qed

lemma sunPosition_range: "0 \<le> sunPosition j \<and> sunPosition j < 360"
proof -
  define v where "v = 360 / pi * arctan (1.01686011182 * tan (kepler_loop
      ((if 360 / 365.2422 * j - real_of_int (js_trunc (360 / 365.2422 * j / 360)) * 360 - 3.762863 < 0
        then 360 / 365.2422 * j - real_of_int (js_trunc (360 / 365.2422 * j / 360)) * 360 - 3.762863 + 360
        else 360 / 365.2422 * j - real_of_int (js_trunc (360 / 365.2422 * j / 360)) * 360 - 3.762863) * RADS)
      ((if 360 / 365.2422 * j - real_of_int (js_trunc (360 / 365.2422 * j / 360)) * 360 - 3.762863 < 0
        then 360 / 365.2422 * j - real_of_int (js_trunc (360 / 365.2422 * j / 360)) * 360 - 3.762863 + 360
        else 360 / 365.2422 * j - real_of_int (js_trunc (360 / 365.2422 * j / 360)) * 360 - 3.762863) * RADS) / 2))"
  have s: "sunPosition j = v + 282.596403 - real_of_int (js_trunc ((v + 282.596403) / 360)) * 360"
    unfolding sunPosition_def Let_def v_def ..
  have "- (pi / 2) < arctan (1.01686011182 * tan x)" for x :: real
    by (rule arctan_lbound)
  then have "0 \<le> v + 282.596403"
  proof -
    obtain a where a: "v = 360 / pi * arctan a" unfolding v_def by blast
    have "- (pi / 2) < arctan a" by (rule arctan_lbound)
    then have "360 / pi * (- (pi / 2)) < 360 / pi * arctan a"
      by (intro mult_strict_left_mono) simp_all
    then have "- 180 < v" unfolding a by simp
    then show ?thesis by simp
  qed
  from reduce_nonneg [OF this] show ?thesis unfolding s .
qed

lemma scaled_sin: "0 \<le> a \<Longrightarrow> \<bar>a * sin x\<bar> \<le> a" for a x :: real
proof -
  assume a: "0 \<le> a"
  have "\<bar>a * sin x\<bar> = a * \<bar>sin x\<bar>" using a by (simp add: abs_mult)
  also have "\<dots> \<le> a * 1" by (rule mult_left_mono) (use a in simp_all)
  finally show ?thesis by simp
qed

lemma five_terms:
  fixes sa sb sc sd se l2 :: real
  assumes "\<bar>sa\<bar> \<le> 1" "\<bar>sb\<bar> \<le> 1" "\<bar>sc\<bar> \<le> 1" "\<bar>sd\<bar> \<le> 1" "\<bar>se\<bar> \<le> 1"
    and "0 \<le> l2 \<and> l2 < 360"
  shows "- 8.6206 \<le> 0.6583 * sa + (l2 + (1.2739 * sb + 6.2886 * sc - 0.1858 * sd + 0.214 * se))
         \<and> 0.6583 * sa + (l2 + (1.2739 * sb + 6.2886 * sc - 0.1858 * sd + 0.214 * se)) < 368.6206"
  using assms by (simp add: abs_le_iff)

lemma moonPosition_range: "- 8.6206 \<le> moonPosition j ls \<and> moonPosition j ls < 368.6206"
proof -
  define l2 where "l2 = (if 13.176396 * j + 64.975464
            - real_of_int (js_trunc ((13.176396 * j + 64.975464) / 360)) * 360 < 0
        then 13.176396 * j + 64.975464
            - real_of_int (js_trunc ((13.176396 * j + 64.975464) / 360)) * 360 + 360
        else 13.176396 * j + 64.975464
            - real_of_int (js_trunc ((13.176396 * j + 64.975464) / 360)) * 360)"
  have l2: "0 \<le> l2 \<and> l2 < 360" unfolding l2_def by (rule reduce_any)
  obtain a b c d e where m: "moonPosition j ls
      = 0.6583 * sin a + (l2 + (1.2739 * sin b + 6.2886 * sin c - 0.1858 * sin d + 0.214 * sin e))"
    unfolding moonPosition_def Let_def l2_def [symmetric] by blast
  show ?thesis unfolding m
    by (rule five_terms) (simp_all add: l2)
qed

lemma res_phase_range:
  "- 8.6206 \<le> res_phase (moonPhase_internal d) \<and> res_phase (moonPhase_internal d) < 368.6206"
proof -
  define j where "j = julian (getFullYear d) (getMonth d + 1)
      (real_of_int (getDate d) + (real_of_int (getHours d) + real_of_int (getMinutes d) / 60) / 24
         - 2444238.5) + real_of_int (toUtcMinutes d) / (60 * 24)"
  have r: "res_phase (moonPhase_internal d)
      = (if moonPosition j (sunPosition j) - sunPosition j < 0
         then moonPosition j (sunPosition j) - sunPosition j + 360
         else moonPosition j (sunPosition j) - sunPosition j)"
    unfolding moonPhase_internal_def Let_def j_def by simp
  show ?thesis unfolding r
    using moonPosition_range [of j "sunPosition j"] sunPosition_range [of j]
    by (simp split: if_splits)
qed

lemma phase_range: "- 8.6206 \<le> phase d \<and> phase d < 360"
proof -
  define t where "t = res_phase (moonPhase_internal d)"
  have t: "- 8.6206 \<le> t" "t < 368.6206" using res_phase_range [of d] by (simp_all add: t_def)
  have p: "phase d = t - 360 * real_of_int (js_trunc (t / 360))"
    by (simp add: phase_def js_rem_def t_def)
  show ?thesis
  proof (cases "t < 0")
    case True
    then have "js_trunc (t / 360) = \<lceil>t / 360\<rceil>" by (simp add: js_trunc_def)
    moreover have "\<lceil>t / 360\<rceil> = 0"
      using True t by (simp add: ceiling_eq_iff)
    ultimately show ?thesis using True t by (simp add: p)
  next
    case False
    then have "0 \<le> t" by simp
    from reduce_nonneg [OF this] show ?thesis by (simp add: p mult.commute)
  qed
qed

lemma moonPhase_range: "0 \<le> moonPhase d \<and> moonPhase d \<le> 3"
proof -
  have p: "- 8.6206 \<le> phase d" "phase d < 360" using phase_range [of d] by simp_all
  show ?thesis
  proof (cases "phase d < 0")
    case True
    then have "js_trunc (phase d / 90) = \<lceil>phase d / 90\<rceil>" by (simp add: js_trunc_def)
    moreover have "\<lceil>phase d / 90\<rceil> = 0"
      using True p by (simp add: ceiling_eq_iff)
    ultimately show ?thesis by (simp add: moonPhase_def)
  next
    case False
    then have "0 \<le> phase d / 90" "phase d / 90 < real_of_int 4" using p by simp_all
    then have "0 \<le> js_trunc (phase d / 90) \<and> js_trunc (phase d / 90) \<le> 4 - 1"
      by (rule js_trunc_range)
    then show ?thesis by (simp add: moonPhase_def)
  qed
qed


section \<open>Season and sign\<close>

lemma RADS_pos: "0 < RADS"
  by (simp add: RADS_def)

lemma range_angle_id: "0 \<le> x \<Longrightarrow> x < TPI \<Longrightarrow> range_angle x = x"
proof -
  assume x: "0 \<le> x" "x < TPI"
  have "\<lfloor>x / TPI\<rfloor> = 0"
    using x TPI_pos by (simp add: floor_eq_iff)
  then have "frac (x / TPI) = x / TPI" by (simp add: frac_def)
  then show ?thesis using TPI_pos by (simp add: range_angle_frac)
qed

lemma range_angle_degrees:
  assumes "real_of_int n * 360 \<le> d" "d < real_of_int n * 360 + 360"
  shows "range_angle (RADS * d) = RADS * (d - real_of_int n * 360)"
proof -
  have e: "RADS * d = RADS * (d - real_of_int n * 360) + TPI * real_of_int n"
    by (simp add: RADS_def TPI_def algebra_simps)
  have i: "range_angle (RADS * (d - real_of_int n * 360)) = RADS * (d - real_of_int n * 360)"
  proof (rule range_angle_id)
    show "0 \<le> RADS * (d - real_of_int n * 360)"
      using assms RADS_pos by simp
    have "RADS * (d - real_of_int n * 360) < RADS * 360"
      using assms RADS_pos by simp
    then show "RADS * (d - real_of_int n * 360) < TPI"
      by (simp add: RADS_def TPI_def)
  qed
  have "range_angle (RADS * d)
          = range_angle (RADS * (d - real_of_int n * 360) + TPI * real_of_int n)"
    by (subst e) (rule refl)
  also have "\<dots> = range_angle (RADS * (d - real_of_int n * 360))"
    by (rule range_angle_periodic)
  finally show ?thesis using i by (simp only:)
qed

lemma two_terms:
  fixes s1 s2 :: real
  assumes "\<bar>s1\<bar> \<le> 1" "\<bar>s2\<bar> \<le> 1"
  shows "- 1.935 \<le> 1.915 * s1 + 0.02 * s2 \<and> 1.915 * s1 + 0.02 * s2 \<le> 1.935"
  using assms by (simp add: abs_le_iff)

lemma sun_window:
  assumes lo: "real_of_int n * 360 + a + 1.935 \<le> 280.461 + 0.9856474 * day"
    and hi: "280.461 + 0.9856474 * day \<le> real_of_int n * 360 + b - 1.935"
    and a: "0 \<le> a" and b: "b < 360"
  shows "a * RADS \<le> sun day \<and> sun day \<le> b * RADS"
proof -
  define L where "L = 280.461 + 0.9856474 * day"
  define g where "g = range_angle (357.528 * RADS + 0.9856003 * RADS * day)"
  define q where "q = 1.915 * sin g + 0.02 * sin (2 * g)"
  have q: "- 1.935 \<le> q" "q \<le> 1.935"
    using two_terms [of "sin g" "sin (2 * g)"] unfolding q_def by simp_all
  have Lr: "real_of_int n * 360 \<le> L" "L < real_of_int n * 360 + 360"
    using lo hi a b unfolding L_def by simp_all
  have "280.461 * RADS + 0.9856474 * RADS * day = RADS * L"
    by (simp add: L_def algebra_simps)
  then have lon: "range_angle (280.461 * RADS + 0.9856474 * RADS * day)
                   = RADS * (L - real_of_int n * 360)"
    using range_angle_degrees [OF Lr] by simp
  have s: "sun day = range_angle (RADS * (L - real_of_int n * 360 + q))"
    unfolding sun_def Let_def lon g_def [symmetric] q_def
    by (simp add: algebra_simps)
  have w: "a \<le> L - real_of_int n * 360 + q" "L - real_of_int n * 360 + q \<le> b"
    using lo hi q unfolding L_def by simp_all
  have "range_angle (RADS * (L - real_of_int n * 360 + q)) = RADS * (L - real_of_int n * 360 + q)"
  proof (rule range_angle_id)
    show "0 \<le> RADS * (L - real_of_int n * 360 + q)"
      using w a RADS_pos by simp
    have "RADS * (L - real_of_int n * 360 + q) < RADS * 360"
      using w b RADS_pos by simp
    then show "RADS * (L - real_of_int n * 360 + q) < TPI"
      by (simp add: RADS_def TPI_def)
  qed
  then have "sun day = RADS * (L - real_of_int n * 360 + q)" using s by simp
  moreover have "a * RADS \<le> RADS * (L - real_of_int n * 360 + q)"
    using w RADS_pos by (simp add: mult.commute)
  moreover have "RADS * (L - real_of_int n * 360 + q) \<le> b * RADS"
    using w RADS_pos by (simp add: mult.commute)
  ultimately show ?thesis by simp
qed

lemma sector_window:
  assumes "a * RADS \<le> s" "s \<le> b * RADS" "real_of_int k * (360 / m) \<le> a"
    "b < (real_of_int k + 1) * (360 / m)" "0 \<le> k" "0 < m"
  shows "js_trunc (s / TPI * m) = k"
proof -
  have e: "s / TPI * m = (s / RADS) * (m / 360)"
    by (simp add: RADS_def TPI_def field_simps)
  have "a \<le> s / RADS" "s / RADS \<le> b"
    using assms(1,2) RADS_pos by (simp_all add: field_simps)
  then have "real_of_int k * (360 / m) \<le> s / RADS" "s / RADS < (real_of_int k + 1) * (360 / m)"
    using assms(3,4) by linarith+
  then have "real_of_int k \<le> (s / RADS) * (m / 360)" "(s / RADS) * (m / 360) < real_of_int k + 1"
    using assms(6) by (simp_all add: field_simps)
  then have f: "\<lfloor>s / TPI * m\<rfloor> = k" unfolding e by (simp add: floor_eq_iff)
  have "0 \<le> s / TPI * m"
    using \<open>real_of_int k \<le> (s / RADS) * (m / 360)\<close> assms(5) unfolding e by linarith
  then show ?thesis using f by (simp add: js_trunc_def)
qed


lemma utc_days:
  "civil_from_days 11077 = (2000, 4, 30)" "days_from_civil 2000 4 1 = 11048"
  "civil_from_days 11078 = (2000, 5, 1)"
  "civil_from_days 11157 = (2000, 7, 19)" "days_from_civil 2000 7 1 = 11139"
  "civil_from_days 11158 = (2000, 7, 20)"
  by code_simp+

lemma utc_fields_1:
  "localFields utc (endOfDay (astro_world utc) (midnightOf (astro_world utc) 957052800000))
     = \<lparr> getFullYear = 2000, getMonth = 4, getDate = 1, getHours = 0, getMinutes = 0,
         getTimezoneOffset = 0 \<rparr>"
  by (simp add: endOfDay_def astro_world_def utc_def utc_days Let_def)

lemma utc_fields_2:
  "localFields utc (endOfDay (astro_world utc) (midnightOf (astro_world utc) 963964800000))
     = \<lparr> getFullYear = 2000, getMonth = 6, getDate = 20, getHours = 0, getMinutes = 0,
         getTimezoneOffset = 0 \<rparr>"
  by (simp add: endOfDay_def astro_world_def utc_def utc_days Let_def)

lemma may_day:
  "season \<lparr> getFullYear = 2000, getMonth = 4, getDate = 1, getHours = 0, getMinutes = 0,
         getTimezoneOffset = 0 \<rparr> = 0"
proof -
  have d: "epoch2000Date \<lparr> getFullYear = 2000, getMonth = 4, getDate = 1, getHours = 0,
      getMinutes = 0, getTimezoneOffset = 0 \<rparr> = 120.5"
    by (simp add: epoch2000Date_def toUtcMinutes_def js_trunc_def Let_def)
  have "37 * RADS \<le> sun 120.5 \<and> sun 120.5 \<le> 42 * RADS"
    by (rule sun_window [where n = 1]) simp_all
  then show ?thesis
    unfolding season_def sunAngle_def d
    by (intro sector_window [where a = 37 and b = 42]) simp_all
qed

lemma july_day:
  "season \<lparr> getFullYear = 2000, getMonth = 6, getDate = 20, getHours = 0, getMinutes = 0,
         getTimezoneOffset = 0 \<rparr> = 1"
proof -
  have d: "epoch2000Date \<lparr> getFullYear = 2000, getMonth = 6, getDate = 20, getHours = 0,
      getMinutes = 0, getTimezoneOffset = 0 \<rparr> = 200.5"
    by (simp add: epoch2000Date_def toUtcMinutes_def js_trunc_def Let_def)
  have "116 * RADS \<le> sun 200.5 \<and> sun 200.5 \<le> 121 * RADS"
    by (rule sun_window [where n = 1]) simp_all
  then show ?thesis
    unfolding season_def sunAngle_def d
    by (intro sector_window [where a = 116 and b = 121]) simp_all
qed

lemma astro_world_simps:
  "signAt (astro_world h) t = sign (localFields h t)"
  "seasonAt (astro_world h) t = season (localFields h t)"
  "moonPhaseAt (astro_world h) t = moonPhase (localFields h t)"
  by (simp_all add: astro_world_def)

text \<open>
  C5.  On every host, for any two day records of the program, and so for consecutive
  days: if their seasons differ, their end-of-day signs differ.  Both are read from the
  same sun angle at the same instant, and the season is the sign divided by 3.
\<close>

theorem season_change_is_sign_change:
  assumes "mSeason (CalendarDate (astro_world h) d1) \<noteq> mSeason (CalendarDate (astro_world h) d2)"
  shows "mTropicalPhase (CalendarDate (astro_world h) d1)
           \<noteq> mTropicalPhase (CalendarDate (astro_world h) d2)"
  using assms by (auto simp: CalendarDate_fields astro_world_simps season_of_sign)

text \<open>The days 2000-04-30 and 2000-07-19 on the UTC host: spring and summer.\<close>

theorem season_change_is_sign_change_witness:
  "mSeason (CalendarDate (astro_world utc) 957052800000)
     \<noteq> mSeason (CalendarDate (astro_world utc) 963964800000)
   \<and> mTropicalPhase (CalendarDate (astro_world utc) 957052800000)
     \<noteq> mTropicalPhase (CalendarDate (astro_world utc) 963964800000)"
proof -
  have "mSeason (CalendarDate (astro_world utc) 957052800000) = 0"
    by (simp add: CalendarDate_fields astro_world_simps(2) utc_fields_1 may_day)
  moreover have "mSeason (CalendarDate (astro_world utc) 963964800000) = 1"
    by (simp add: CalendarDate_fields astro_world_simps(2) utc_fields_2 july_day)
  ultimately have ne: "mSeason (CalendarDate (astro_world utc) 957052800000)
     \<noteq> mSeason (CalendarDate (astro_world utc) 963964800000)" by simp
  from season_change_is_sign_change [OF ne] ne show ?thesis by simp
qed


section \<open>A negative phase angle\<close>

text \<open>
  What does hold at every civil instant: the three classifiers stay in range, and the
  phase angle lies between \<open>- 8.6206\<close> and 360.
\<close>

lemma classifier_ranges:
  "0 \<le> sign d \<and> sign d \<le> 11 \<and> 0 \<le> season d \<and> season d \<le> 3
   \<and> 0 \<le> moonPhase d \<and> moonPhase d \<le> 3
   \<and> - 8.6206 \<le> phase d \<and> phase d < 360"
  using sign_range [of d] season_range [of d] moonPhase_range [of d] phase_range [of d]
  by blast

lemma pi_ge_three: "3 \<le> pi"
proof -
  have "sin (pi / 6) \<le> pi / 6"
    by (rule sin_x_le_x) simp
  then show ?thesis by (simp add: sin_30)
qed

lemma arctan_le_self:
  assumes "0 \<le> u"
  shows "arctan u \<le> u"
proof (cases "u = 0")
  case True
  then show ?thesis by simp
next
  case False
  with assms have u: "0 < u" by simp
  have "\<exists>z. 0 < z \<and> z < u \<and> arctan u - arctan 0 = (u - 0) * inverse (1 + z\<^sup>2)"
    by (rule MVT2 [OF u]) (rule DERIV_arctan)
  then obtain z where z: "arctan u = u * inverse (1 + z\<^sup>2)" by auto
  have "inverse (1 + z\<^sup>2) \<le> 1"
    by (simp add: inverse_le_1_iff)
  then have "u * inverse (1 + z\<^sup>2) \<le> u * 1"
    using u by (intro mult_left_mono) simp_all
  then show ?thesis using z by simp
qed

lemma arctan_scaled_tan:
  assumes y: "0 \<le> y" "y \<le> 1" and c: "1 \<le> c"
  shows "y \<le> arctan (c * tan y) \<and> arctan (c * tan y) \<le> y + (c - 1) / 2"
proof -
  have y2: "y < pi / 2" using y pi_ge_three by linarith
  have y1: "- (pi / 2) < y" using y pi_gt_zero by linarith
  define t where "t = tan y"
  have t0: "0 \<le> t" unfolding t_def by (rule tan_pos_pi2_le [OF y(1) y2])
  define w where "w = arctan (c * t)"
  have "t \<le> c * t" using c t0 by (simp add: mult_le_cancel_right1)
  then have "arctan t \<le> w" unfolding w_def by (simp add: arctan_le_iff)
  moreover have "arctan t = y" unfolding t_def by (rule arctan_tan [OF y1 y2])
  ultimately have lo: "y \<le> w" by simp
  have w2: "w < pi / 2" unfolding w_def by (rule arctan_ubound)
  have d1: "- (pi / 2) < w - y" using lo pi_gt_zero by linarith
  have d2: "w - y < pi / 2" using w2 y by linarith
  have cw: "cos w \<noteq> 0" unfolding w_def by simp
  have cy: "cos y \<noteq> 0" using cos_gt_zero_pi [OF y1 y2] by simp
  have cd: "cos (w - y) \<noteq> 0" using cos_gt_zero_pi [OF d1 d2] by simp
  have "tan (w - y) = (tan w - tan y) / (1 + tan w * tan y)"
    by (rule tan_diff [OF cw cy cd])
  also have "tan w = c * t" unfolding w_def by (rule tan_arctan)
  also have "tan y = t" by (simp add: t_def)
  finally have td: "tan (w - y) = (c - 1) * t / (1 + c * t * t)"
    by (simp add: algebra_simps)
  have "1 * (t * t) \<le> c * (t * t)"
    by (rule mult_right_mono) (use c t0 in simp_all)
  then have den: "1 + t * t \<le> 1 + c * t * t"
    by (simp add: mult.assoc)
  have "2 * t \<le> 1 + t * t"
    using zero_le_square [of "1 - t"] by (simp add: algebra_simps)
  then have "2 * t \<le> 1 + c * t * t" using den by linarith
  moreover have "0 < 1 + c * t * t" using den zero_le_square [of t] by linarith
  ultimately have "t / (1 + c * t * t) \<le> 1 / 2"
    by (simp add: pos_divide_le_eq)
  then have "(c - 1) * (t / (1 + c * t * t)) \<le> (c - 1) * (1 / 2)"
    using c by (intro mult_left_mono) simp_all
  then have tu: "tan (w - y) \<le> (c - 1) / 2" unfolding td by simp
  have tn: "0 \<le> tan (w - y)"
    using lo d2 by (intro tan_pos_pi2_le) simp_all
  have "w - y = arctan (tan (w - y))"
    by (rule arctan_tan [OF d1 d2, symmetric])
  also have "\<dots> \<le> tan (w - y)" by (rule arctan_le_self [OF tn])
  finally have "w \<le> y + (c - 1) / 2" using tu by linarith
  with lo show ?thesis unfolding w_def t_def by blast
qed

lemma kepler_result_residual:
  "\<bar>newton_dl 0.016718 x (kepler_loop x x)\<bar> \<le> 1 / 10 ^ 12"
proof -
  obtain e where e: "\<bar>e - 0.016718 * sin e - x\<bar> < SMALL_FLOAT"
    and r: "kepler_loop x x = e - (e - 0.016718 * sin e - x) / (1 - 0.016718 * cos e)"
    using kepler_loop_residual [of x x] by blast
  have n: "kepler_loop x x = newton_next 0.016718 x e"
    by (simp only: r newton_next_def newton_dl_def)
  define r0 where "r0 = \<bar>newton_dl 0.016718 x e\<bar>"
  have r0: "0 \<le> r0" "r0 \<le> 1 / 10 ^ 12"
    using e by (simp_all add: r0_def newton_dl_def SMALL_FLOAT_def)
  have "\<bar>newton_dl 0.016718 x (newton_next 0.016718 x e)\<bar> \<le> 173 / 10000 * r0\<^sup>2"
    unfolding r0_def by (rule kepler_quadratic)
  also have "r0\<^sup>2 \<le> (1 / 10 ^ 12)\<^sup>2"
    by (rule square_bound) (use r0 in simp_all)
  finally show ?thesis unfolding n by (simp add: power2_eq_square)
qed

lemma kepler_window_arith:
  fixes E x s :: real
  assumes "E - 0.016718 * s - x \<le> 1 / 10 ^ 12" "- (E - 0.016718 * s - x) \<le> 1 / 10 ^ 12"
    "- 1 \<le> s" "s \<le> 1" "1 / 50 \<le> x" "x \<le> 19 / 10"
  shows "E \<le> x + 0.016718 + 1 / 10 ^ 12" "0 \<le> E" "E \<le> 3"
    "0 \<le> s \<Longrightarrow> x - 1 / 10 ^ 12 \<le> E"
  using assms by simp_all

lemma kepler_result_window:
  assumes "1 / 50 \<le> x" "x \<le> 19 / 10"
  shows "x - 1 / 10 ^ 12 \<le> kepler_loop x x
         \<and> kepler_loop x x \<le> x + 0.016718 + 1 / 10 ^ 12"
proof -
  define E where "E = kepler_loop x x"
  define s where "s = sin E"
  have a: "\<bar>E - 0.016718 * s - x\<bar> \<le> 1 / 10 ^ 12"
    using kepler_result_residual [of x] by (simp only: newton_dl_def E_def s_def)
  have s: "- 1 \<le> s" "s \<le> 1" by (simp_all add: s_def)
  note k = kepler_window_arith [OF abs_le_D1 [OF a] abs_le_D2 [OF a] s assms]
  have "E \<le> pi" using k(3) pi_ge_three by linarith
  with k(2) have "0 \<le> s" unfolding s_def by (rule sin_ge_zero)
  from k(4) [OF this] k(1) show ?thesis unfolding E_def by simp
qed


lemma sun_window_arith:
  fixes xd uE v u uc :: real
  assumes "xd - u * (1 / 10 ^ 12) \<le> uE" "uE \<le> xd + u * (0.016718 + 1 / 10 ^ 12)"
    "uE \<le> v" "v \<le> uE + uc" "uc \<le> 120 * (0.01686011182 / 2)"
    "0 \<le> u" "u \<le> 60" "2 \<le> xd" "xd \<le> 75.38"
  shows "xd + 282.5964 \<le> v + 282.596403" "v + 282.596403 \<le> xd + 284.6112"
    "0 \<le> (v + 282.596403) / 360" "(v + 282.596403) / 360 < 1"
  using assms by simp_all

lemma sunPosition_window:
  assumes k: "js_trunc (360 / 365.2422 * j / 360) = k"
    and xd: "xd = 360 / 365.2422 * j - real_of_int k * 360 - 3.762863"
    and lo: "2 \<le> xd" and hi: "xd \<le> 75.38"
  shows "xd + 282.5964 \<le> sunPosition j \<and> sunPosition j \<le> xd + 284.6112"
proof -
  define u where "u = 180 / pi"
  have u: "0 \<le> u" "u \<le> 60" "45 \<le> u"
    using pi_ge_three pi_less_4 pi_gt_zero by (simp_all add: u_def field_simps)
  define x where "x = xd * RADS"
  have ux: "u * x = xd" by (simp add: u_def x_def RADS_def)
  have xu: "x = xd / u" using u(3) ux by (simp add: field_simps)
  have x1: "1 / 50 \<le> x"
  proof -
    have "2 / 60 \<le> xd / u"
      using lo u by (intro frac_le) simp_all
    then have "2 / 60 \<le> x" by (simp only: xu)
    then show ?thesis by simp
  qed
  have x2: "x \<le> 19 / 10"
  proof -
    have "xd / u \<le> 75.38 / 45"
      using hi lo u by (intro frac_le) simp_all
    then have "x \<le> 75.38 / 45" by (simp only: xu)
    then show ?thesis by simp
  qed
  define E where "E = kepler_loop x x"
  have E: "x - 1 / 10 ^ 12 \<le> E" "E \<le> x + 0.016718 + 1 / 10 ^ 12"
    using kepler_result_window [OF x1 x2] by (simp_all add: E_def)
  have y: "0 \<le> E / 2" "E / 2 \<le> 1"
    using E x1 x2 by simp_all
  define w where "w = arctan (1.01686011182 * tan (E / 2))"
  have w: "E / 2 \<le> w" "w \<le> E / 2 + (1.01686011182 - 1) / 2"
    using arctan_scaled_tan [OF y, of "1.01686011182"] by (simp_all add: w_def)
  define v where "v = 360 / pi * w"
  have v2: "v = (2 * u) * w" by (simp add: v_def u_def)
  have a1: "xd - u * (1 / 10 ^ 12) \<le> u * E"
  proof -
    have "u * (x - 1 / 10 ^ 12) \<le> u * E"
      by (rule mult_left_mono [OF E(1) u(1)])
    then show ?thesis by (simp add: right_diff_distrib ux)
  qed
  have a2: "u * E \<le> xd + u * (0.016718 + 1 / 10 ^ 12)"
  proof -
    have "u * E \<le> u * (x + 0.016718 + 1 / 10 ^ 12)"
      by (rule mult_left_mono [OF E(2) u(1)])
    then show ?thesis by (simp add: distrib_left ux)
  qed
  have a3: "u * E \<le> v"
  proof -
    have "(2 * u) * (E / 2) \<le> (2 * u) * w"
      by (rule mult_left_mono [OF w(1)]) (use u in simp)
    then show ?thesis by (simp add: v2)
  qed
  have a4: "v \<le> u * E + (2 * u) * (0.01686011182 / 2)"
  proof -
    have "(2 * u) * w \<le> (2 * u) * (E / 2 + (1.01686011182 - 1) / 2)"
      by (rule mult_left_mono [OF w(2)]) (use u in simp)
    then show ?thesis by (simp add: v2 distrib_left)
  qed
  have a5: "(2 * u) * (0.01686011182 / 2) \<le> 120 * (0.01686011182 / 2)"
    by (rule mult_right_mono) (use u in simp_all)
  note r = sun_window_arith [OF a1 a2 a3 a4 a5 u(1) u(2) lo hi]
  have t: "js_trunc ((v + 282.596403) / 360) = 0"
    using r(3) r(4) by (simp add: js_trunc_def floor_eq_iff)
  have x0: "\<not> xd < 0" using lo by simp
  have "sunPosition j = v + 282.596403 - real_of_int (js_trunc ((v + 282.596403) / 360)) * 360"
    unfolding sunPosition_def Let_def k xd [symmetric] v_def w_def E_def x_def
    using x0 by simp
  then have "sunPosition j = v + 282.596403" unfolding t by simp
  with r(1) r(2) show ?thesis by simp
qed


lemma moon_equation_arith:
  fixes mm1 sA sB :: real
  assumes "- 91.6 \<le> mm1" "mm1 \<le> - 88.4" "\<bar>sA\<bar> \<le> 1" "\<bar>sB\<bar> \<le> 1"
  shows "mm1 + 90 + (1.2739 * sA - 0.1858 * sB - 0.37 * sB) \<le> 3.4297"
    "- 3.4297 \<le> mm1 + 90 + (1.2739 * sA - 0.1858 * sB - 0.37 * sB)"
  using assms by (simp_all add: abs_le_iff)

lemma moon_sum_arith:
  fixes l2 sA sB sC sD cD :: real
  assumes "\<bar>sA\<bar> \<le> 1" "\<bar>sB\<bar> \<le> 1" "\<bar>sC\<bar> \<le> 1" "\<bar>sD\<bar> \<le> 1" "0.997 \<le> cD"
  shows "0.6583 * sD + (l2 + (1.2739 * sA + 6.2886 * (- cD) - 0.1858 * sB + 0.214 * sC))
           \<le> l2 - 3.937"
  using assms by (simp add: abs_le_iff)

lemma cos_small_degrees:
  assumes "\<bar>d\<bar> \<le> 3.4297"
  shows "0.997 \<le> cos (d * RADS)"
proof -
  define z where "z = d * RADS"
  have "\<bar>z\<bar> = \<bar>d\<bar> * RADS" using RADS_pos by (simp add: z_def abs_mult)
  also have "\<dots> \<le> 3.4297 * RADS"
    by (rule mult_right_mono [OF assms]) (use RADS_pos in simp)
  also have "\<dots> \<le> 3.4297 * (4 / 180)"
    by (rule mult_left_mono) (use pi_less_4 in \<open>simp_all add: RADS_def\<close>)
  finally have z: "\<bar>z\<bar> \<le> 0.077" by simp
  have "\<bar>z\<bar>\<^sup>2 \<le> 0.077\<^sup>2"
    by (rule square_bound) (use z in simp_all)
  then have z2: "z\<^sup>2 / 2 \<le> 0.003" by (simp add: power2_eq_square)
  have "\<bar>cos z - 1\<bar> \<le> z\<^sup>2 / 2" by (rule cos_near_one)
  then have "- (z\<^sup>2 / 2) \<le> cos z - 1" by (rule abs_le_D2 [THEN minus_le_iff [THEN iffD1]])
  with z2 have "1 - 0.003 \<le> cos z" by linarith
  then show ?thesis unfolding z_def by simp
qed

lemma sin_quarter_back: "sin ((d - 90) * RADS) = - cos (d * RADS)"
proof -
  have "(d - 90) * RADS = d * RADS - pi / 2"
    by (simp add: RADS_def field_simps)
  then show ?thesis by (simp add: sin_diff)
qed

lemma moonPosition_upper:
  assumes k1: "js_trunc ((13.176396 * j + 64.975464) / 360) = k1"
    and l2: "l2 = 13.176396 * j + 64.975464 - real_of_int k1 * 360"
    and l2p: "0 \<le> l2"
    and k2: "js_trunc ((l2 - 0.1114041 * j - 349.383063) / 360) = k2"
    and mm1: "mm1 = l2 - 0.1114041 * j - 349.383063 - real_of_int k2 * 360"
    and near: "- 91.6 \<le> mm1" "mm1 \<le> - 88.4"
  shows "moonPosition j ls \<le> l2 - 3.937"
proof -
  have nl: "(if l2 < 0 then l2 + 360 else l2) = l2" using l2p by simp
  obtain a b d e where m: "moonPosition j ls
      = 0.6583 * sin a
        + (l2 + (1.2739 * sin b
                 + 6.2886 * sin ((mm1 + (1.2739 * sin b - 0.1858 * sin d - 0.37 * sin d)) * RADS)
                 - 0.1858 * sin d + 0.214 * sin e))"
    unfolding moonPosition_def Let_def k1 l2 [symmetric] nl k2 mm1 [symmetric] by blast
  define q where "q = mm1 + 90 + (1.2739 * sin b - 0.1858 * sin d - 0.37 * sin d)"
  have b: "\<bar>sin a\<bar> \<le> 1" "\<bar>sin b\<bar> \<le> 1" "\<bar>sin d\<bar> \<le> 1" "\<bar>sin e\<bar> \<le> 1"
    by simp_all
  have "\<bar>q\<bar> \<le> 3.4297"
    unfolding q_def using moon_equation_arith [OF near b(2) b(3)]
    by (simp only: abs_le_iff minus_le_iff [of _ "3.4297"])
  then have c: "0.997 \<le> cos (q * RADS)" by (rule cos_small_degrees)
  have "mm1 + (1.2739 * sin b - 0.1858 * sin d - 0.37 * sin d) = q - 90"
    by (simp add: q_def)
  then have "sin ((mm1 + (1.2739 * sin b - 0.1858 * sin d - 0.37 * sin d)) * RADS)
               = - cos (q * RADS)"
    by (simp only: sin_quarter_back)
  then have "moonPosition j ls
      = 0.6583 * sin a
        + (l2 + (1.2739 * sin b + 6.2886 * (- cos (q * RADS)) - 0.1858 * sin d + 0.214 * sin e))"
    using m by (simp only:)
  also have "\<dots> \<le> l2 - 3.937"
    by (rule moon_sum_arith [OF b(2) b(3) b(4) b(1) c])
  finally show ?thesis .
qed


lemma equinox_eve_julian:
  "julian (getFullYear equinox_eve) (getMonth equinox_eve + 1)
      (real_of_int (getDate equinox_eve)
        + (real_of_int (getHours equinox_eve) + real_of_int (getMinutes equinox_eve) / 60) / 24
        - 2444238.5)
     + real_of_int (toUtcMinutes equinox_eve) / (60 * 24) = 320915 / 12"
  by (simp add: equinox_eve_def julian_def toUtcMinutes_def js_trunc_def Let_def)

lemma equinox_eve_sun: "357.9 \<le> sunPosition (320915 / 12)"
proof -
  define xd :: real where "xd = 360 / 365.2422 * (320915 / 12) - real_of_int 73 * 360 - 3.762863"
  have k: "js_trunc (360 / 365.2422 * (320915 / 12) / 360) = 73"
    by (simp add: js_trunc_def)
  have b: "75.32 \<le> xd" "xd \<le> 75.38" by (simp_all add: xd_def)
  then have "2 \<le> xd" by simp
  from sunPosition_window [OF k xd_def this b(2)] b(1) show ?thesis by simp
qed

lemma equinox_eve_moon: "moonPosition (320915 / 12) ls \<le> - 3.7"
proof -
  define l2 :: real where "l2 = 13.176396 * (320915 / 12) + 64.975464 - real_of_int 979 * 360"
  define mm1 :: real
    where "mm1 = l2 - 0.1114041 * (320915 / 12) - 349.383063 - real_of_int (- 9) * 360"
  have k1: "js_trunc ((13.176396 * (320915 / 12) + 64.975464) / 360) = 979"
    by (simp add: js_trunc_def)
  have l2v: "l2 = 0.235659" by (simp add: l2_def)
  have k2: "js_trunc ((l2 - 0.1114041 * (320915 / 12) - 349.383063) / 360) = - 9"
    unfolding l2v by (simp add: js_trunc_def)
  have l2p: "0 \<le> l2" by (simp add: l2v)
  have near: "- 91.6 \<le> mm1" "mm1 \<le> - 88.4" unfolding mm1_def l2v by simp_all
  from moonPosition_upper [OF k1 l2_def l2p k2 mm1_def near, of ls]
  show ?thesis unfolding l2v by simp
qed

text \<open>
  C7 fails at its phase angle.  At 2053-03-19 22:00 UTC the sun stands at more than
  357.9 degrees and \<open>moonPosition\<close> returns less than \<open>- 3.7\<close>, so their difference
  is below \<open>- 360\<close> and adding 360 once leaves it negative: \<open>phase\<close> is negative,
  outside the interval from 0 to 360, and \<open>moonPhase\<close> is 0.
\<close>

theorem phase_negative:
  "phase equinox_eve < 0 \<and> moonPhase equinox_eve = 0"
proof -
  define ls where "ls = sunPosition (320915 / 12)"
  define lm where "lm = moonPosition (320915 / 12) ls"
  define t where "t = res_phase (moonPhase_internal equinox_eve)"
  have "t = (if lm - ls < 0 then lm - ls + 360 else lm - ls)"
    unfolding t_def moonPhase_internal_def Let_def equinox_eve_julian lm_def ls_def by simp
  moreover have "lm - ls < - 360"
    using equinox_eve_sun equinox_eve_moon [of ls] unfolding lm_def ls_def by simp
  ultimately have up: "t < 0" by simp
  have lo: "- 8.6206 \<le> t" unfolding t_def using res_phase_range [of equinox_eve] by simp
  have "js_trunc (t / 360) = \<lceil>t / 360\<rceil>" using up by (simp add: js_trunc_def)
  moreover have "\<lceil>t / 360\<rceil> = 0" using up lo by (simp add: ceiling_eq_iff)
  ultimately have p: "phase equinox_eve = t"
    by (simp add: phase_def js_rem_def t_def)
  have "js_trunc (t / 90) = \<lceil>t / 90\<rceil>" using up by (simp add: js_trunc_def)
  moreover have "\<lceil>t / 90\<rceil> = 0" using up lo by (simp add: ceiling_eq_iff)
  ultimately have "moonPhase equinox_eve = 0"
    by (simp add: moonPhase_def p)
  with p up show ?thesis by simp
qed


section \<open>The sun from one day to the next\<close>

























section \<open>The moon from one day to the next\<close>













section \<open>The lunar quarter from one day to the next\<close>











text \<open>
  Every day of a walk carries in \<open>mLunarPhase\<close> the quarter read at its \<open>endOfDay\<close>:
  the constructor stores it, and \<open>next()\<close> returns a constructed day.
\<close>

lemma quarter_at_end_of_day:
  "mLunarPhase (CalendarDate w d) = moonPhaseAt w (endOfDay w (today (CalendarDate w d)))"
  "mLunarPhase (snd (next_date w c)) = moonPhaseAt w (endOfDay w (today (snd (next_date w c))))"
  by (simp_all add: next_date_snd CalendarDate_fields)












section \<open>The calendar switch of 1582\<close>
































section \<open>Angle normalisation in double precision\<close>

lemma round_even_near:
  fixes N :: int
  assumes "\<bar>x - real_of_int N\<bar> < 1 / 2"
  shows "round_even x = N"
proof -
  have a: "x - real_of_int N < 1 / 2" "- (1 / 2) < x - real_of_int N"
    using assms by linarith+
  show ?thesis
  proof (cases "real_of_int N \<le> x")
    case True
    then have "\<lfloor>x\<rfloor> = N" using a by (simp add: floor_eq_iff)
    then show ?thesis using a by (simp add: round_even_def Let_def)
  next
    case False
    then have f: "\<lfloor>x\<rfloor> = N - 1" using a by (simp add: floor_eq_iff)
    have "1 / 2 < x - real_of_int (N - 1)" using a by simp
    then show ?thesis unfolding round_even_def Let_def f by simp
  qed
qed

lemma round_even_between:
  fixes lo hi :: int
  assumes "real_of_int lo \<le> x" "x \<le> real_of_int hi"
  shows "lo \<le> round_even x \<and> round_even x \<le> hi"
proof -
  have l: "lo \<le> \<lfloor>x\<rfloor>" using assms(1) by (simp add: le_floor_iff)
  have r: "\<lfloor>x\<rfloor> \<le> round_even x" "round_even x \<le> \<lfloor>x\<rfloor> + 1"
    by (simp_all add: round_even_def Let_def)
  show ?thesis
  proof (cases "x = real_of_int \<lfloor>x\<rfloor>")
    case True
    then have "round_even x = \<lfloor>x\<rfloor>" by (simp add: round_even_def Let_def)
    moreover have "\<lfloor>x\<rfloor> \<le> hi" using assms(2) by (simp add: floor_le_iff)
    ultimately show ?thesis using l by simp
  next
    case False
    then have "real_of_int \<lfloor>x\<rfloor> < x" by linarith
    then have "real_of_int \<lfloor>x\<rfloor> < real_of_int hi" using assms(2) by linarith
    then have "\<lfloor>x\<rfloor> + 1 \<le> hi" by linarith
    with l r show ?thesis by linarith
  qed
qed

lemma double_negative:
  assumes "x < 0"
  shows "2 * x \<le> double x \<and> double x < 0"
proof -
  define e where "e = \<lfloor>log 2 \<bar>x\<bar>\<rfloor>"
  define u where "u = 2 powr real_of_int (e - 52)"
  have ax: "0 < \<bar>x\<bar>" using assms by simp
  have "\<lfloor>log 2 \<bar>x\<bar>\<rfloor> = e" by (simp add: e_def)
  then have b: "2 powr real_of_int e \<le> \<bar>x\<bar>" "\<bar>x\<bar> < 2 powr real_of_int (e + 1)"
    using floor_log_eq_powr_iff [OF ax, of 2 e] by simp_all
  have up: "0 < u" by (simp add: u_def)
  have "real_of_int e = real_of_int (e - 52) + 52" by simp
  then have "2 powr real_of_int e = 2 powr (real_of_int (e - 52) + 52)" by (simp only:)
  also have "\<dots> = u * 2 powr 52" unfolding u_def by (rule powr_add)
  finally have p0: "2 powr real_of_int e = u * 2 ^ 52" by simp
  have "real_of_int (e + 1) = real_of_int (e - 52) + 53" by simp
  then have "2 powr real_of_int (e + 1) = 2 powr (real_of_int (e - 52) + 53)" by (simp only:)
  also have "\<dots> = u * 2 powr 53" unfolding u_def by (rule powr_add)
  finally have p1: "2 powr real_of_int (e + 1) = u * 2 ^ 53" by simp
  have x: "x = - \<bar>x\<bar>" using assms by simp
  have "2 ^ 52 \<le> \<bar>x\<bar> / u" "\<bar>x\<bar> / u < 2 ^ 53"
    using b up unfolding p0 p1 by (simp_all add: field_simps)
  then have y: "real_of_int (- (2 ^ 53)) \<le> x / u" "x / u \<le> real_of_int (- (2 ^ 52))"
    by (subst x, simp)+
  define r where "r = round_even (x / u)"
  have r: "- (2 ^ 53) \<le> r" "r \<le> - (2 ^ 52)"
    using round_even_between [OF y] by (simp_all add: r_def)
  have d: "double x = real_of_int r * u"
    using assms by (simp add: double_def Let_def r_def u_def e_def)
  have "real_of_int r \<le> real_of_int (- (2 ^ 52))" using r(2) by (simp only: of_int_le_iff)
  then have "real_of_int r \<le> - (2 ^ 52)" by simp
  then have "real_of_int r * u \<le> - (2 ^ 52) * u"
    using up by (intro mult_right_mono) simp_all
  then have neg: "double x < 0" using up by (simp add: d)
  have "real_of_int (- (2 ^ 53)) \<le> real_of_int r" using r(1) by (simp only: of_int_le_iff)
  then have "- (2 ^ 53) \<le> real_of_int r" by simp
  then have "- (2 ^ 53) * u \<le> real_of_int r * u"
    using up by (intro mult_right_mono) simp_all
  moreover have "- (2 ^ 53) * u = - 2 * (u * 2 ^ 52)" by simp
  moreover have "- 2 * (u * 2 ^ 52) \<ge> 2 * x"
    using b(1) unfolding p0 by (subst x) simp
  ultimately have "2 * x \<le> double x" unfolding d by linarith
  with neg show ?thesis by simp
qed


lemma double_near_two_pi:
  assumes "4 \<le> x" "x < 8"
  shows "double x = real_of_int (round_even (x * 2 ^ 50)) / 2 ^ 50"
proof -
  have x: "0 < \<bar>x\<bar>" "\<bar>x\<bar> = x" "x \<noteq> 0" using assms by simp_all
  have "2 powr real_of_int 2 \<le> \<bar>x\<bar> \<and> \<bar>x\<bar> < 2 powr real_of_int (2 + 1)"
    using assms by simp
  then have e: "\<lfloor>log 2 \<bar>x\<bar>\<rfloor> = 2"
    using floor_log_eq_powr_iff [OF x(1), of 2 2] by simp
  have u: "2 powr real_of_int (2 - 52) = 1 / 2 ^ 50"
    by (simp add: powr_neg_numeral)
  show ?thesis
    unfolding double_def Let_def e u using x(3) by simp
qed

lemma TPI_double_value: "TPI_double = 884279719003555 / 2 ^ 47"
proof -
  have "round_even (real_of_int 7074237752028440) = 7074237752028440"
    by (rule round_even_near) simp
  moreover have "Math_PI * 2 * 2 ^ 50 = real_of_int 7074237752028440"
    by (simp add: Math_PI_def)
  ultimately have "round_even (Math_PI * 2 * 2 ^ 50) = 7074237752028440" by (simp only:)
  moreover have "double (Math_PI * 2) = real_of_int (round_even (Math_PI * 2 * 2 ^ 50)) / 2 ^ 50"
    by (rule double_near_two_pi) (simp_all add: Math_PI_def)
  ultimately show ?thesis unfolding TPI_double_def by simp
qed

lemma double_absorbs:
  assumes "- (1 / 2 ^ 51) < a" "a < 0"
  shows "double (TPI_double + a) = TPI_double"
proof -
  define x where "x = TPI_double + a"
  have r: "4 \<le> x" "x < 8" using assms by (simp_all add: x_def TPI_double_value)
  have "x * 2 ^ 50 - real_of_int 7074237752028440 = a * 2 ^ 50"
    by (simp add: x_def TPI_double_value algebra_simps)
  moreover have "- (1 / 2) < a * 2 ^ 50" "a * 2 ^ 50 < 0" using assms by (simp_all add: field_simps)
  ultimately have "\<bar>x * 2 ^ 50 - real_of_int 7074237752028440\<bar> < 1 / 2" by linarith
  then have "round_even (x * 2 ^ 50) = 7074237752028440" by (rule round_even_near)
  then have "double x = real_of_int 7074237752028440 / 2 ^ 50"
    using double_near_two_pi [OF r] by simp
  then show ?thesis by (simp add: x_def TPI_double_value)
qed

lemma range_double_tiny:
  assumes x: "- (1 / 2 ^ 60) \<le> x" "x < 0"
  shows "range_double x = TPI_double"
proof -
  have T: "6 \<le> TPI_double" "TPI_double \<le> 7" by (simp_all add: TPI_double_value)
  define y where "y = x / TPI_double"
  have y: "- (1 / 2 ^ 60) \<le> y" "y < 0"
  proof -
    have "x / 1 \<le> x / TPI_double"
      using x T by (intro divide_left_mono_neg) simp_all
    then show "- (1 / 2 ^ 60) \<le> y" using x by (simp add: y_def)
    show "y < 0" using x T by (simp add: y_def divide_neg_pos)
  qed
  define b where "b = double y"
  have b: "- (2 / 2 ^ 60) \<le> b" "b < 0"
    using double_negative [OF y(2)] y(1) by (simp_all add: b_def)
  have "\<lfloor>\<bar>b\<bar>\<rfloor> = 0" using b by (simp add: floor_eq_iff)
  then have s: "b - sgn b * real_of_int \<lfloor>\<bar>b\<bar>\<rfloor> = b" by simp
  define c where "c = double b"
  have c: "- (4 / 2 ^ 60) \<le> c" "c < 0"
    using double_negative [OF b(2)] b(1) by (simp_all add: c_def)
  define p where "p = TPI_double * c"
  have p: "- (28 / 2 ^ 60) \<le> p" "p < 0"
  proof -
    have "TPI_double * c \<ge> 7 * c"
      using c T by (intro mult_right_mono_neg) simp_all
    then show "- (28 / 2 ^ 60) \<le> p" using c(1) by (simp add: p_def)
    show "p < 0" using c T by (simp add: p_def mult_pos_neg)
  qed
  define a where "a = double p"
  have a: "- (56 / 2 ^ 60) \<le> a" "a < 0"
    using double_negative [OF p(2)] p(1) by (simp_all add: a_def)
  then have "- (1 / 2 ^ 51) < a" by simp
  then have "double (TPI_double + a) = TPI_double" using a(2) by (rule double_absorbs)
  then show ?thesis
    unfolding range_double_def Let_def y_def [symmetric] b_def [symmetric] s c_def [symmetric]
      p_def [symmetric] a_def [symmetric]
    using a(2) by simp
qed

lemma double_scaled:
  fixes N :: int
  assumes "2 ^ 52 \<le> \<bar>x\<bar> * 2 ^ k" "\<bar>x\<bar> * 2 ^ k < 2 ^ 53"
    and "\<bar>x * 2 ^ k - real_of_int N\<bar> < 1 / 2"
  shows "double x = real_of_int N / 2 ^ k"
proof -
  have nz: "x \<noteq> 0" using assms(1) by auto
  then have ax: "0 < \<bar>x\<bar>" by simp
  have p: "2 powr real_of_int (i - int k) = 2 ^ nat i / 2 ^ k" if "0 \<le> i" for i :: int
  proof -
    have "2 powr real_of_int (i - int k) = 2 powr (real (nat i) - real k)"
      using that by simp
    also have "\<dots> = 2 powr real (nat i) / 2 powr real k" by (rule powr_diff)
    finally show ?thesis by (simp add: powr_realpow)
  qed
  have p52: "2 powr real_of_int (52 - int k) = 2 ^ 52 / 2 ^ k"
    using p [of 52] by simp
  have "52 - int k + 1 = 53 - int k" by simp
  then have p53: "2 powr real_of_int (52 - int k + 1) = 2 ^ 53 / 2 ^ k"
    using p [of 53] by simp
  have "2 powr real_of_int (52 - int k) \<le> \<bar>x\<bar>"
    unfolding p52 using assms(1) by (simp add: field_simps)
  moreover have "\<bar>x\<bar> < 2 powr real_of_int (52 - int k + 1)"
    unfolding p53 using assms(2) by (simp add: field_simps)
  ultimately have e: "\<lfloor>log 2 \<bar>x\<bar>\<rfloor> = 52 - int k"
    using floor_log_eq_powr_iff [OF ax, of 2 "52 - int k"] by simp
  have u: "2 powr real_of_int (52 - int k - 52) = 1 / 2 ^ k"
    using p [of 0] by simp
  have "round_even (x / (1 / 2 ^ k)) = N"
    by (rule round_even_near) (use assms(3) in simp)
  then show ?thesis
    unfolding double_def Let_def e u using nz by simp
qed

lemma range_double_quarter_turn: "range_double (- Math_PI / 2) = 3 * Math_PI / 2"
proof -
  have x: "- Math_PI / 2 / TPI_double = - (1 / 4)"
    by (simp add: Math_PI_def TPI_double_value)
  have b: "double (- (1 / 4)) = - (1 / 4)"
    using double_scaled [of "- (1 / 4)" 54 "- 4503599627370496"] by simp
  have s: "- (1 / 4) - sgn (- (1 / 4) :: real) * real_of_int \<lfloor>\<bar>- (1 / 4) :: real\<bar>\<rfloor> = - (1 / 4)"
    by simp
  have a: "double (TPI_double * - (1 / 4)) = - (884279719003555 / 2 ^ 49)"
    using double_scaled [of "TPI_double * - (1 / 4)" 52 "- 7074237752028440"]
    by (simp add: TPI_double_value)
  have r: "double (TPI_double + - (884279719003555 / 2 ^ 49)) = 2652839157010665 / 2 ^ 49"
    using double_scaled [of "TPI_double + - (884279719003555 / 2 ^ 49)" 50 5305678314021330]
    by (simp add: TPI_double_value)
  show ?thesis
    unfolding range_double_def Let_def x b s a r by (simp add: Math_PI_def)
qed

lemma range_double_one: "range_double 1 = 1"
proof -
  have b: "double (1 / TPI_double) = 5734161139222659 / 2 ^ 55"
    using double_scaled [of "1 / TPI_double" 55 5734161139222659]
    by (simp add: TPI_double_value)
  have s: "5734161139222659 / 2 ^ 55
      - sgn (5734161139222659 / 2 ^ 55 :: real)
        * real_of_int \<lfloor>\<bar>5734161139222659 / 2 ^ 55 :: real\<bar>\<rfloor> = 5734161139222659 / 2 ^ 55"
    by simp
  have c: "double (5734161139222659 / 2 ^ 55) = 5734161139222659 / 2 ^ 55"
    using double_scaled [of "5734161139222659 / 2 ^ 55" 55 5734161139222659] by simp
  have a: "double (TPI_double * (5734161139222659 / 2 ^ 55)) = 1"
    using double_scaled [of "TPI_double * (5734161139222659 / 2 ^ 55)" 52 4503599627370496]
    by (simp add: TPI_double_value)
  show ?thesis
    unfolding range_double_def Let_def b s c a by simp
qed

lemma range_double_one_turn: "range_double (1 + 2 * Math_PI) = 1 - 5 / 2 ^ 53"
proof -
  have x: "(1 + 2 * Math_PI) / TPI_double = 1025017207358883 / 884279719003555"
    by (simp add: Math_PI_def TPI_double_value)
  have b: "double (1025017207358883 / 884279719003555) = 326273110610833 / 2 ^ 48"
    using double_scaled [of "1025017207358883 / 884279719003555" 52 5220369769773328]
    by simp
  have s: "326273110610833 / 2 ^ 48
      - sgn (326273110610833 / 2 ^ 48 :: real)
        * real_of_int \<lfloor>\<bar>326273110610833 / 2 ^ 48 :: real\<bar>\<rfloor> = 44798133900177 / 2 ^ 48"
    by simp
  have c: "double (44798133900177 / 2 ^ 48) = 44798133900177 / 2 ^ 48"
    using double_scaled [of "44798133900177 / 2 ^ 48" 55 5734161139222656] by simp
  have a: "double (TPI_double * (44798133900177 / 2 ^ 48)) = 9007199254740987 / 2 ^ 53"
    using double_scaled [of "TPI_double * (44798133900177 / 2 ^ 48)" 53 9007199254740987]
    by (simp add: TPI_double_value)
  show ?thesis
    unfolding range_double_def Let_def x b s c a by simp
qed

text \<open>
  C8.  \<open>range\<close> does not keep every angle below \<open>2 * Math.PI\<close>: for the double
  \<open>- 2^-70\<close> the product \<open>a\<close> is negative and so small that the sum \<open>TPI + a\<close> rounds
  to \<open>TPI\<close>, and \<open>range\<close> returns exactly \<open>2 * Math.PI\<close>, the excluded end of the
  interval.  At \<open>- Math.PI / 2\<close> it returns \<open>3 * Math.PI / 2\<close>.  A full turn added to
  1 changes the result in the last places: \<open>range(1 + 2 * Math.PI)\<close> is
  \<open>1 - 5 / 2^53\<close>, and \<open>range(1)\<close> is 1.
\<close>

theorem range_reaches_two_pi:
  "range_double (- (1 / 2 ^ 70)) = 2 * Math_PI
   \<and> \<not> range_double (- (1 / 2 ^ 70)) < TPI_double
   \<and> range_double (- Math_PI / 2) = 3 * Math_PI / 2
   \<and> range_double (1 + 2 * Math_PI) = 1 - 5 / 2 ^ 53
   \<and> range_double 1 = 1"
proof -
  have t: "range_double (- (1 / 2 ^ 70)) = TPI_double"
    by (rule range_double_tiny) simp_all
  have "TPI_double = 2 * Math_PI" by (simp add: TPI_double_value Math_PI_def)
  with t have "range_double (- (1 / 2 ^ 70)) = 2 * Math_PI"
    and "\<not> range_double (- (1 / 2 ^ 70)) < TPI_double" by simp_all
  with range_double_quarter_turn range_double_one_turn range_double_one
  show ?thesis by blast
qed

end
